theory Spec2Isabelle
  imports Main "HOL-Library.List_Lexorder" "HOL-Library.AList"
begin

chapter \<open>The meal-plan parser (src/parser.js)\<close>

section \<open>JavaScript strings\<close>

text \<open>
  A JavaScript string is a sequence of UTF-16 code units.  The parser's keywords are Korean,
  so a code unit is a natural number rather than an 8-bit \<open>char\<close>; \<open>js\<close> embeds an ASCII
  literal.  The default order of \<open>Array.prototype.sort\<close> on strings is the lexicographic
  order on code units, which is the order of \<open>List_Lexorder\<close>.
\<close>

type_synonym jsstring = "nat list"

definition js :: "string \<Rightarrow> jsstring" where
  "js s = map of_char s"

text \<open>WhiteSpace and LineTerminator of ECMAScript: what \<open>trim\<close> strips and \<open>\s\<close> matches.\<close>

definition isSpace :: "nat \<Rightarrow> bool" where
  "isSpace c \<longleftrightarrow>
     c = 9 \<or> c = 10 \<or> c = 11 \<or> c = 12 \<or> c = 13 \<or> c = 32 \<or> c = 160 \<or> c = 5760 \<or>
     (8192 \<le> c \<and> c \<le> 8202) \<or> c = 8232 \<or> c = 8233 \<or> c = 8239 \<or> c = 8287 \<or>
     c = 12288 \<or> c = 65279"

definition trim :: "jsstring \<Rightarrow> jsstring" where
  "trim s = rev (dropWhile isSpace (rev (dropWhile isSpace s)))"

text \<open>\<open>\d\<close> matches the ASCII digits only; \<open>Number\<close> reads a string of them.\<close>

definition isDigit :: "nat \<Rightarrow> bool" where
  "isDigit c \<longleftrightarrow> 48 \<le> c \<and> c \<le> 57"

definition Number :: "jsstring \<Rightarrow> nat" where
  "Number ds = foldl (\<lambda>a c. 10 * a + (c - 48)) 0 ds"

text \<open>\<open>String(n)\<close> for an integer, and \<open>padStart\<close> with a one-unit pad string.\<close>

fun String_nat :: "nat \<Rightarrow> jsstring" where
  "String_nat n = (if n < 10 then [48 + n] else String_nat (n div 10) @ [48 + n mod 10])"

declare String_nat.simps [simp del]

definition String_int :: "int \<Rightarrow> jsstring" where
  "String_int i = (if i < 0 then 45 # String_nat (nat (- i)) else String_nat (nat i))"

definition padStart :: "nat \<Rightarrow> nat \<Rightarrow> jsstring \<Rightarrow> jsstring" where
  "padStart n c s = replicate (n - length s) c @ s"

text \<open>\<open>s.includes(kw)\<close>: \<open>kw\<close> occurs in \<open>s\<close> as a contiguous block.\<close>

fun includesStr :: "jsstring \<Rightarrow> jsstring \<Rightarrow> bool" where
  "includesStr [] kw = (kw = [])"
| "includesStr (c # s) kw = (take (length kw) (c # s) = kw \<or> includesStr s kw)"

text \<open>The first alternative of a regular expression that matches wins.\<close>

definition orElse :: "'a option \<Rightarrow> 'a option \<Rightarrow> 'a option" where
  "orElse a b = (case a of Some x \<Rightarrow> Some x | None \<Rightarrow> b)"

text \<open>\<open>\d{n}\<close> at the head of \<open>s\<close>: the digits and what follows them.\<close>

definition takeDigits :: "nat \<Rightarrow> jsstring \<Rightarrow> (jsstring \<times> jsstring) option" where
  "takeDigits n s =
     (if n \<le> length s \<and> list_all isDigit (take n s) then Some (take n s, drop n s) else None)"

section \<open>Raw cells and errors\<close>

text \<open>
  A cell of the grid that \<open>sheet_to_json\<close> returns (\<open>header: 1, raw: true, defval: null\<close>)
  is null, a string, a number, a boolean or a \<open>Date\<close>; an index past the end of a row
  reads \<open>undefined\<close>.

  A \<open>Date\<close> is invalid (its time value is NaN) or valid; the parser reads a valid one
  through \<open>getFullYear\<close>, \<open>getMonth\<close> (from 0), \<open>getDate\<close> and \<open>toISOString\<close>.
  A finite number is read through \<open>xlsx.SSF.parse_date_code\<close> (null, or an object with
  fields y, m, d) and \<open>String\<close>; both belong to the library and the language, so the cell
  carries their results.
\<close>

datatype jsdate =
  InvalidDate
| DateValue (getFullYear: int) (getMonth: nat) (getDate: nat) (toISOString: jsstring)

datatype jsnumber =
  NaN
| PosInfinity
| NegInfinity
| Finite (parse_date_code: "(nat \<times> nat \<times> nat) option") (numberText: jsstring)

datatype cell =
  CUndefined
| CNull
| CString jsstring
| CNumber jsnumber
| CBoolean bool
| CDate jsdate

text \<open>
  What can be thrown: \<open>xlsx.readFile\<close> on an unreadable container, \<open>toISOString\<close> on
  an invalid \<open>Date\<close> (a RangeError), a property read on \<open>undefined\<close> (a TypeError).
\<close>

datatype error = ContainerUnreadable | RangeError | TypeError

definition andThen :: "error + 'a \<Rightarrow> ('a \<Rightarrow> error + 'b) \<Rightarrow> error + 'b" where
  "andThen r f = (case r of Inl e \<Rightarrow> Inl e | Inr v \<Rightarrow> f v)"

fun String_number :: "jsnumber \<Rightarrow> jsstring" where
  "String_number NaN = js ''NaN''"
| "String_number PosInfinity = js ''Infinity''"
| "String_number NegInfinity = js ''-Infinity''"
| "String_number (Finite dc t) = t"

text \<open>
  \<^verbatim>\<open>function safeText(v) {
    if (v === null || v === undefined) return '';
    if (typeof v === 'string') return v;
    if (v instanceof Date) return v.toISOString();
    return String(v); }\<close>
\<close>

fun safeText :: "cell \<Rightarrow> error + jsstring" where
  "safeText CUndefined = Inr []"
| "safeText CNull = Inr []"
| "safeText (CString s) = Inr s"
| "safeText (CDate InvalidDate) = Inl RangeError"
| "safeText (CDate (DateValue y m d txt)) = Inr txt"
| "safeText (CNumber n) = Inr (String_number n)"
| "safeText (CBoolean b) = Inr (if b then js ''true'' else js ''false'')"

section \<open>Filename date hint\<close>

text \<open>
  \<open>path.basename\<close> (POSIX): trailing slashes are dropped, then the part after the last
  slash is kept.
\<close>

definition basename :: "jsstring \<Rightarrow> jsstring" where
  "basename p = rev (takeWhile (\<lambda>c. c \<noteq> 47) (dropWhile (\<lambda>c. c = 47) (rev p)))"

text \<open>
  \<^verbatim>\<open>base.match(/(^|\D)(\d{6})(\D|$)/)\<close>.
  \<open>sixDigits t\<close> is \<open>(\d{6})(\D|$)\<close> at the head of \<open>t\<close>.  \<open>find6\<close> tries the start
  positions from left to right; at each one first the alternative \<open>^\<close> (only at the start
  of the string), then \<open>\D\<close>.  The result is group 2.
\<close>

definition sixDigits :: "jsstring \<Rightarrow> jsstring option" where
  "sixDigits t =
     (if 6 \<le> length t \<and> list_all isDigit (take 6 t) \<and>
         (case drop 6 t of [] \<Rightarrow> True | c # _ \<Rightarrow> \<not> isDigit c)
      then Some (take 6 t) else None)"

fun find6 :: "bool \<Rightarrow> jsstring \<Rightarrow> jsstring option" where
  "find6 atStart [] = None"
| "find6 atStart (c # t) =
     orElse (if atStart then sixDigits (c # t) else None)
       (orElse (if \<not> isDigit c then sixDigits t else None) (find6 False t))"

record basedate =
  hint_y :: int
  hint_mo :: nat
  hint_d :: nat

text \<open>
  \<^verbatim>\<open>function parseBaseDateFromFilename(filename) {
    const base = path.basename(filename);
    const m = base.match(/(^|\D)(\d{6})(\D|$)/);
    if (!m) return null;
    const y = 2000 + Number(m[2].slice(0, 2));
    const mo = Number(m[2].slice(2, 4));
    const d = Number(m[2].slice(4, 6));
    if (!y || !mo || !d) return null;
    return { y, mo, d }; }\<close>
\<close>

definition parseBaseDateFromFilename :: "jsstring \<Rightarrow> basedate option" where
  "parseBaseDateFromFilename filename =
     (case find6 True (basename filename) of
        None \<Rightarrow> None
      | Some m2 \<Rightarrow>
          (let y = 2000 + int (Number (take 2 m2));
               mo = Number (take 2 (drop 2 m2));
               d = Number (take 2 (drop 4 m2))
           in if y = 0 \<or> mo = 0 \<or> d = 0 then None
              else Some \<lparr>hint_y = y, hint_mo = mo, hint_d = d\<rparr>))"

section \<open>Cell date normalizer\<close>

text \<open>
  \<^verbatim>\<open>function toISODate(y, m, d) {
    const mm = String(m).padStart(2, '0');
    const dd = String(d).padStart(2, '0');
    return `${y}-${mm}-${dd}`; }\<close>
\<close>

definition toISODate :: "int \<Rightarrow> nat \<Rightarrow> nat \<Rightarrow> jsstring" where
  "toISODate y m d =
     (let mm = padStart 2 48 (String_nat m);
          dd = padStart 2 48 (String_nat d)
      in String_int y @ [45] @ mm @ [45] @ dd)"

text \<open>
  \<^verbatim>\<open>s.match(/(\d{1,2})\s*\/\s*(\d{1,2})/)\<close>.
  \<open>md_with n\<close> is the attempt with \<open>n\<close> digits in group 1; the greedy \<open>\d{1,2}\<close> tries
  two digits, then one (\<open>md_at\<close>).  \<open>\s*\<close> takes every white space unit: giving one back
  cannot help, since a slash or a digit must follow.  \<open>match_md\<close> tries the start
  positions from left to right and returns groups 1 and 2.
\<close>

definition md_tail :: "jsstring \<Rightarrow> jsstring option" where
  "md_tail rest =
     (case dropWhile isSpace rest of
        [] \<Rightarrow> None
      | c # r \<Rightarrow>
          if c = 47
          then map_option fst (orElse (takeDigits 2 (dropWhile isSpace r))
                                      (takeDigits 1 (dropWhile isSpace r)))
          else None)"

definition md_with :: "nat \<Rightarrow> jsstring \<Rightarrow> (jsstring \<times> jsstring) option" where
  "md_with n s =
     (case takeDigits n s of
        None \<Rightarrow> None
      | Some (a, rest) \<Rightarrow> map_option (\<lambda>b. (a, b)) (md_tail rest))"

definition md_at :: "jsstring \<Rightarrow> (jsstring \<times> jsstring) option" where
  "md_at s = orElse (md_with 2 s) (md_with 1 s)"

fun match_md :: "jsstring \<Rightarrow> (jsstring \<times> jsstring) option" where
  "match_md [] = None"
| "match_md (c # t) = orElse (md_at (c # t)) (match_md t)"

text \<open>\<^verbatim>\<open>s.match(/(\d{4})-(\d{1,2})-(\d{1,2})/)\<close>, in the same way.\<close>

definition iso_day :: "jsstring \<Rightarrow> jsstring option" where
  "iso_day r =
     (case r of
        [] \<Rightarrow> None
      | c # r' \<Rightarrow>
          if c = 45 then map_option fst (orElse (takeDigits 2 r') (takeDigits 1 r')) else None)"

definition iso_month :: "nat \<Rightarrow> jsstring \<Rightarrow> (jsstring \<times> jsstring) option" where
  "iso_month n r =
     (case takeDigits n r of
        None \<Rightarrow> None
      | Some (m, rest) \<Rightarrow> map_option (\<lambda>d. (m, d)) (iso_day rest))"

definition iso_at :: "jsstring \<Rightarrow> (jsstring \<times> jsstring \<times> jsstring) option" where
  "iso_at s =
     (case takeDigits 4 s of
        None \<Rightarrow> None
      | Some (y, rest) \<Rightarrow>
          (case rest of
             [] \<Rightarrow> None
           | c # r \<Rightarrow>
               if c = 45
               then map_option (\<lambda>md. (y, md)) (orElse (iso_month 2 r) (iso_month 1 r))
               else None))"

fun match_iso :: "jsstring \<Rightarrow> (jsstring \<times> jsstring \<times> jsstring) option" where
  "match_iso [] = None"
| "match_iso (c # t) = orElse (iso_at (c # t)) (match_iso t)"

text \<open>
  \<^verbatim>\<open>function normalizeDateCell(cell, baseYearGuess) {
    if (cell instanceof Date && !Number.isNaN(cell.getTime())) {
      const y = cell.getFullYear(); const m = cell.getMonth() + 1; const d = cell.getDate();
      return toISODate(y, m, d); }
    if (typeof cell === 'number' && Number.isFinite(cell)) {
      const dc = xlsx.SSF.parse_date_code(cell);
      if (dc && dc.y && dc.m && dc.d) { return toISODate(dc.y, dc.m, dc.d); } }
    const s = safeText(cell).trim();
    if (!s) return null;
    const md = s.match(/(\d{1,2})\s*\/\s*(\d{1,2})/);
    if (md) { const m = Number(md[1]); const d = Number(md[2]);
      const y = baseYearGuess ?? new Date().getFullYear();
      return toISODate(y, m, d); }
    const iso = s.match(/(\d{4})-(\d{1,2})-(\d{1,2})/);
    if (iso) { return toISODate(Number(iso[1]), Number(iso[2]), Number(iso[3])); }
    return null; }\<close>
  The year of the clock, \<open>new Date().getFullYear()\<close>, is the parameter \<open>thisYear\<close>.
  An invalid \<open>Date\<close> passes the first two tests and reaches \<open>safeText\<close>.
\<close>

definition dateBranch :: "cell \<Rightarrow> jsstring option" where
  "dateBranch cell =
     (case cell of
        CDate (DateValue y m0 d txt) \<Rightarrow> Some (toISODate y (m0 + 1) d)
      | _ \<Rightarrow> None)"

definition numberBranch :: "cell \<Rightarrow> jsstring option" where
  "numberBranch cell =
     (case cell of
        CNumber (Finite (Some (y, m, d)) t) \<Rightarrow>
          if y \<noteq> 0 \<and> m \<noteq> 0 \<and> d \<noteq> 0 then Some (toISODate (int y) m d) else None
      | _ \<Rightarrow> None)"

definition textBranch :: "int \<Rightarrow> jsstring \<Rightarrow> int option \<Rightarrow> jsstring option" where
  "textBranch thisYear t baseYearGuess =
     (let s = trim t in
      if s = [] then None
      else
        (case match_md s of
           Some (a, b) \<Rightarrow>
             (let m = Number a; d = Number b;
                  y = (case baseYearGuess of Some g \<Rightarrow> g | None \<Rightarrow> thisYear)
              in Some (toISODate y m d))
         | None \<Rightarrow>
             (case match_iso s of
                Some (a, b, c) \<Rightarrow> Some (toISODate (int (Number a)) (Number b) (Number c))
              | None \<Rightarrow> None)))"

definition normalizeDateCell :: "int \<Rightarrow> cell \<Rightarrow> int option \<Rightarrow> error + jsstring option" where
  "normalizeDateCell thisYear cell baseYearGuess =
     (case dateBranch cell of
        Some r \<Rightarrow> Inr (Some r)
      | None \<Rightarrow>
          (case numberBranch cell of
             Some r \<Rightarrow> Inr (Some r)
           | None \<Rightarrow>
               andThen (safeText cell) (\<lambda>t. Inr (textBranch thisYear t baseYearGuess))))"

section \<open>Menu-text splitter\<close>

text \<open>
  \<open>t.split(/\n+/)\<close>: a run of newlines is one separator; \<open>cur\<close> is the piece being read.
\<close>

function splitNewlines :: "jsstring \<Rightarrow> jsstring \<Rightarrow> jsstring list" where
  "splitNewlines cur [] = [cur]"
| "splitNewlines cur (c # s) =
     (if c = 10 then cur # splitNewlines [] (dropWhile (\<lambda>x. x = 10) s)
      else splitNewlines (cur @ [c]) s)"
  by pat_completeness auto
termination
  by (relation "measure (\<lambda>(cur, s). length s)") (auto simp: less_Suc_eq_le length_dropWhile_le)

text \<open>The keywords, as code units: breakfast, lunch, dinner, night, salad, corner.\<close>

definition kw_breakfast :: jsstring where "kw_breakfast = [51312, 49885]"
definition kw_lunch :: jsstring where "kw_lunch = [51473, 49885]"
definition kw_dinner :: jsstring where "kw_dinner = [49437, 49885]"
definition kw_night :: jsstring where "kw_night = [50556, 49885]"
definition kw_salad :: jsstring where "kw_salad = [49360, 47084, 46300]"
definition kw_corner :: jsstring where "kw_corner = [53076, 45320]"

text \<open>
  The header test of \<open>splitMenuItems\<close>,
  \<open>/^\s*(breakfast|lunch|dinner|night|salad|A\s*corner|B\s*corner)\s*$/i\<close> with the
  Korean words above: the whole piece, white space at both ends apart, is one of the
  labels.  Under \<open>/i\<close> the letters A and B also match in lower case; Hangul has no case.
\<close>

definition isHeaderLabel :: "jsstring \<Rightarrow> bool" where
  "isHeaderLabel p =
     (let q = trim p in
      q = kw_breakfast \<or> q = kw_lunch \<or> q = kw_dinner \<or> q = kw_night \<or> q = kw_salad \<or>
      (case q of
         [] \<Rightarrow> False
       | c # r \<Rightarrow> (c = 65 \<or> c = 97 \<or> c = 66 \<or> c = 98) \<and> dropWhile isSpace r = kw_corner))"

text \<open>
  \<^verbatim>\<open>function splitMenuItems(text) {
    const t = safeText(text).replace(/\r/g, '').replace(/\u00A0/g, ' ').trim();
    if (!t) return [];
    const parts = t.split(/\n+/).map(p => p.trim()).filter(Boolean);
    return parts.filter(p => !/^\s*(...)\s*$/i.test(p)); }\<close>
\<close>

definition splitMenuItems :: "cell \<Rightarrow> error + jsstring list" where
  "splitMenuItems text =
     andThen (safeText text) (\<lambda>s.
       let t = trim (map (\<lambda>c. if c = 160 then 32 else c) (filter (\<lambda>c. c \<noteq> 13) s)) in
       if t = [] then Inr []
       else
         (let parts = filter (\<lambda>p. p \<noteq> []) (map trim (splitNewlines [] t))
          in Inr (filter (\<lambda>p. \<not> isHeaderLabel p) parts)))"

section \<open>Header and column detector\<close>

datatype category = Breakfast | Lunch | Dinner | Night | Salad | Corner

fun keywordTable :: "category \<Rightarrow> jsstring list" where
  "keywordTable Breakfast = [kw_breakfast]"
| "keywordTable Lunch = [kw_lunch]"
| "keywordTable Dinner = [kw_dinner]"
| "keywordTable Night = [kw_night]"
| "keywordTable Salad = [kw_salad]"
| "keywordTable Corner = [kw_corner]"

text \<open>\<open>Object.entries(keywords)\<close> lists the families in the order they were written.\<close>

definition categories :: "category list" where
  "categories = [Breakfast, Lunch, Dinner, Night, Salad, Corner]"

text \<open>\<open>replace(/\s+/g, ' ')\<close>: every run of white space becomes one space.\<close>

function collapseSpaces :: "jsstring \<Rightarrow> jsstring" where
  "collapseSpaces [] = []"
| "collapseSpaces (c # s) =
     (if isSpace c then 32 # collapseSpaces (dropWhile isSpace s) else c # collapseSpaces s)"
  by pat_completeness auto
termination
  by (relation "measure length") (auto simp: less_Suc_eq_le length_dropWhile_le)

text \<open>
  \<open>found\<close> holds one \<open>Set\<close> of column indices for each family; a \<open>Set\<close> keeps its
  elements in insertion order, and \<open>add\<close> of an element it has changes nothing.
\<close>

type_synonym found = "category \<Rightarrow> nat list"

definition addCol :: "nat \<Rightarrow> nat list \<Rightarrow> nat list" where
  "addCol c cs = (if c \<in> set cs then cs else cs @ [c])"

text \<open>
  \<^verbatim>\<open>for (const [k, arr] of Object.entries(keywords)) {
    if (arr.some(kw => s.includes(kw))) found[k].add(c); }\<close>
\<close>

definition scanCell :: "jsstring \<Rightarrow> nat \<Rightarrow> found \<Rightarrow> found" where
  "scanCell s c found =
     foldl (\<lambda>f k. if list_ex (\<lambda>kw. includesStr s kw) (keywordTable k)
                   then f(k := addCol c (f k)) else f)
       found categories"

text \<open>
  \<^verbatim>\<open>for (let c = 0; c < row.length; c++) {
    const s = safeText(row[c]).replace(/\s+/g, ' ').trim();
    if (!s) continue;
    ... }\<close>
  \<open>scanRow\<close> is called with the cells from column \<open>c\<close> on.
\<close>

fun scanRow :: "cell list \<Rightarrow> nat \<Rightarrow> found \<Rightarrow> error + found" where
  "scanRow [] c found = Inr found"
| "scanRow (v # row) c found =
     andThen (safeText v) (\<lambda>t.
       let s = trim (collapseSpaces t) in
       if s = [] then scanRow row (c + 1) found
       else scanRow row (c + 1) (scanCell s c found))"

fun scanRows :: "cell list list \<Rightarrow> found \<Rightarrow> error + found" where
  "scanRows [] found = Inr found"
| "scanRows (row # rows) found = andThen (scanRow row 0 found) (scanRows rows)"

record detected =
  det_breakfast :: "nat list"
  det_lunch :: "nat list"
  det_dinner :: "nat list"
  det_night :: "nat list"
  det_salad :: "nat list"

text \<open>\<^verbatim>\<open>const pick = (set) => Array.from(set).sort((a, b) => a - b);\<close>\<close>

definition pick :: "nat list \<Rightarrow> nat list" where
  "pick cs = sort cs"

text \<open>
  \<^verbatim>\<open>function detectHeaderColumns(rows) {
    const found = { breakfast: new Set(), ..., corner: new Set() };
    const scanLimit = Math.min(rows.length, 35);
    for (let r = 0; r < scanLimit; r++) { const row = rows[r] || []; ... }
    return { breakfast: pick(found.breakfast), lunch: pick(found.lunch),
      dinner: pick(found.dinner), night: pick(found.night), salad: pick(found.salad) }; }\<close>
  A grid is a list of rows, so the guard \<open>rows[r] || []\<close> against a missing row has
  nothing to do.
\<close>

definition detectHeaderColumns :: "cell list list \<Rightarrow> error + detected" where
  "detectHeaderColumns rows =
     (let scanLimit = min (length rows) 35 in
      andThen (scanRows (take scanLimit rows) (\<lambda>k. [])) (\<lambda>found.
        Inr \<lparr>det_breakfast = pick (found Breakfast), det_lunch = pick (found Lunch),
             det_dinner = pick (found Dinner), det_night = pick (found Night),
             det_salad = pick (found Salad)\<rparr>))"

section \<open>Column map\<close>

record columns =
  col_breakfast :: "nat list"
  col_lunch :: "nat list"
  col_dinner :: "nat list"
  col_extras :: "(jsstring \<times> nat list) list"

text \<open>
  \<^verbatim>\<open>function defaultColumnsForSite(site) {
    if (site === 'main') {
      return { breakfast: [1], lunch: [3, 4], dinner: [5, 6], extras: { night: [7, 8] } }; }
    // cancer
    return { breakfast: [1, 2], lunch: [3, 4], dinner: [5, 6],
      extras: { salad: [7], night: [8] } }; }\<close>
\<close>

definition defaultColumnsForSite :: "jsstring \<Rightarrow> columns" where
  "defaultColumnsForSite siteId =
     (if siteId = js ''main''
      then \<lparr>col_breakfast = [1], col_lunch = [3, 4], col_dinner = [5, 6],
            col_extras = [(js ''night'', [7, 8])]\<rparr>
      else \<lparr>col_breakfast = [1, 2], col_lunch = [3, 4], col_dinner = [5, 6],
            col_extras = [(js ''salad'', [7]), (js ''night'', [8])]\<rparr>)"

text \<open>
  \<^verbatim>\<open>const mealCols = {
    breakfast: detected.breakfast.length ? detected.breakfast : fallback.breakfast,
    lunch: detected.lunch.length ? detected.lunch : fallback.lunch,
    dinner: detected.dinner.length ? detected.dinner : fallback.dinner,
    extras: {} };
  if (fallback.extras) mealCols.extras = fallback.extras;\<close>
  \<open>fallback.extras\<close> is an object in both templates, hence truthy.
\<close>

definition mealCols :: "detected \<Rightarrow> columns \<Rightarrow> columns" where
  "mealCols det fallback =
     \<lparr>col_breakfast = (if det_breakfast det \<noteq> [] then det_breakfast det
                       else col_breakfast fallback),
      col_lunch = (if det_lunch det \<noteq> [] then det_lunch det else col_lunch fallback),
      col_dinner = (if det_dinner det \<noteq> [] then det_dinner det else col_dinner fallback),
      col_extras = col_extras fallback\<rparr>"

definition columnsFor :: "cell list list \<Rightarrow> jsstring \<Rightarrow> error + columns" where
  "columnsFor rows siteId =
     andThen (detectHeaderColumns rows) (\<lambda>det.
       let fallback = defaultColumnsForSite siteId in Inr (mealCols det fallback))"

section \<open>Row classifier and accumulator\<close>

text \<open>
  A day of \<open>days\<close>: \<open>{ breakfast: [], lunch: [], dinner: [], extras: {} }\<close>.  \<open>extras\<close> is
  an object keyed by label while rows are read; the last pass may delete the property.
  Objects with string keys that are not array indices list their keys in insertion order:
  association lists, updated in place or extended at the end (\<open>AList.update\<close>).
\<close>

record daymenu =
  breakfast :: "jsstring list"
  lunch :: "jsstring list"
  dinner :: "jsstring list"
  extras :: "(jsstring \<times> jsstring list) list option"

text \<open>The variables of the row loop.\<close>

record pstate =
  currentDate :: "jsstring option"
  allDates :: "jsstring list"
  daysAcc :: "(jsstring \<times> daymenu) list"

text \<open>\<open>row[c]\<close>.\<close>

definition cellAt :: "cell list \<Rightarrow> nat \<Rightarrow> cell" where
  "cellAt row c = (if c < length row then row ! c else CUndefined)"

text \<open>
  \<^verbatim>\<open>const addTo = (key, cols) => {
    const bucket = key === 'extras' ? null : days[currentDate][key];
    for (const c of cols) {
      const items = splitMenuItems(row[c]);
      if (!items.length) continue;
      if (key === 'extras') { /* handled elsewhere */ } else { bucket.push(...items); } } };\<close>
  \<open>pushCells\<close> is the loop over \<open>cols\<close>.  The parser calls \<open>addTo\<close> with the keys
  breakfast, lunch and dinner only.
\<close>

datatype bucketkey = KBreakfast | KLunch | KDinner | KExtras

fun bucketOf :: "bucketkey \<Rightarrow> daymenu \<Rightarrow> jsstring list option" where
  "bucketOf KBreakfast day = Some (breakfast day)"
| "bucketOf KLunch day = Some (lunch day)"
| "bucketOf KDinner day = Some (dinner day)"
| "bucketOf KExtras day = None"

fun setBucket :: "bucketkey \<Rightarrow> jsstring list \<Rightarrow> daymenu \<Rightarrow> daymenu" where
  "setBucket KBreakfast b day = day\<lparr>breakfast := b\<rparr>"
| "setBucket KLunch b day = day\<lparr>lunch := b\<rparr>"
| "setBucket KDinner b day = day\<lparr>dinner := b\<rparr>"
| "setBucket KExtras b day = day"

fun pushCells :: "cell list \<Rightarrow> nat list \<Rightarrow> jsstring list \<Rightarrow> error + jsstring list" where
  "pushCells row [] bucket = Inr bucket"
| "pushCells row (c # cols) bucket =
     andThen (splitMenuItems (cellAt row c)) (\<lambda>items.
       if items = [] then pushCells row cols bucket
       else pushCells row cols (bucket @ items))"

definition addTo :: "bucketkey \<Rightarrow> nat list \<Rightarrow> cell list \<Rightarrow> daymenu \<Rightarrow> error + daymenu" where
  "addTo key cols row day =
     (case bucketOf key day of
        None \<Rightarrow> andThen (pushCells row cols []) (\<lambda>_. Inr day)
      | Some bucket \<Rightarrow> andThen (pushCells row cols bucket) (\<lambda>b. Inr (setBucket key b day)))"

text \<open>
  \<^verbatim>\<open>for (const [ek, cols] of Object.entries(mealCols.extras || {})) {
    for (const c of cols) {
      const items = splitMenuItems(row[c]);
      if (!items.length) continue;
      if (!days[currentDate].extras[ek]) days[currentDate].extras[ek] = [];
      days[currentDate].extras[ek].push(...items); } }\<close>
\<close>

fun pushExtra :: "cell list \<Rightarrow> jsstring \<Rightarrow> nat list \<Rightarrow> daymenu \<Rightarrow> error + daymenu" where
  "pushExtra row ek [] day = Inr day"
| "pushExtra row ek (c # cols) day =
     andThen (splitMenuItems (cellAt row c)) (\<lambda>items.
       if items = [] then pushExtra row ek cols day
       else
         (case extras day of
            None \<Rightarrow> Inl TypeError
          | Some ex \<Rightarrow>
              (let old = (case map_of ex ek of None \<Rightarrow> [] | Some v \<Rightarrow> v)
               in pushExtra row ek cols
                    (day\<lparr>extras := Some (AList.update ek (old @ items) ex)\<rparr>))))"

fun addExtras :: "cell list \<Rightarrow> (jsstring \<times> nat list) list \<Rightarrow> daymenu \<Rightarrow> error + daymenu" where
  "addExtras row [] day = Inr day"
| "addExtras row ((ek, cols) # es) day = andThen (pushExtra row ek cols day) (addExtras row es)"

definition emptyDay :: daymenu where
  "emptyDay = \<lparr>breakfast = [], lunch = [], dinner = [], extras = Some []\<rparr>"

text \<open>
  The body of the row loop:
  \<^verbatim>\<open>const row = rows[i] || [];
  const dateISO = normalizeDateCell(row[0], baseYearGuess);
  if (dateISO) {
    currentDate = dateISO; allDates.push(dateISO);
    if (!days[currentDate]) { days[currentDate] = { breakfast: [], ..., extras: {} }; }
    continue; }
  if (!currentDate) continue;
  addTo('breakfast', mealCols.breakfast); addTo('lunch', mealCols.lunch);
  addTo('dinner', mealCols.dinner);
  for (const [ek, cols] of Object.entries(mealCols.extras || {})) { ... }\<close>
  The pushes change the day in place; here the day is taken out of \<open>days\<close>, changed and
  put back.
\<close>

definition rowStep ::
  "int \<Rightarrow> int option \<Rightarrow> columns \<Rightarrow> pstate \<Rightarrow> cell list \<Rightarrow> error + pstate" where
  "rowStep thisYear baseYearGuess cols st row =
     andThen (normalizeDateCell thisYear (cellAt row 0) baseYearGuess) (\<lambda>dateISO.
       case dateISO of
         Some date \<Rightarrow>
           Inr (st\<lparr>currentDate := Some date,
                   allDates := allDates st @ [date],
                   daysAcc := (if map_of (daysAcc st) date = None
                               then daysAcc st @ [(date, emptyDay)] else daysAcc st)\<rparr>)
       | None \<Rightarrow>
           (case currentDate st of
              None \<Rightarrow> Inr st
            | Some cur \<Rightarrow>
                (case map_of (daysAcc st) cur of
                   None \<Rightarrow> Inl TypeError
                 | Some day0 \<Rightarrow>
                     andThen (addTo KBreakfast (col_breakfast cols) row day0) (\<lambda>day1.
                     andThen (addTo KLunch (col_lunch cols) row day1) (\<lambda>day2.
                     andThen (addTo KDinner (col_dinner cols) row day2) (\<lambda>day3.
                     andThen (addExtras row (col_extras cols) day3) (\<lambda>day4.
                       Inr (st\<lparr>daysAcc := AList.update cur day4 (daysAcc st)\<rparr>))))))))"

text \<open>\<^verbatim>\<open>for (let i = 0; i < rows.length; i++) { ... }\<close>\<close>

fun rowsLoop ::
  "int \<Rightarrow> int option \<Rightarrow> columns \<Rightarrow> cell list list \<Rightarrow> pstate \<Rightarrow> error + pstate" where
  "rowsLoop thisYear baseYearGuess cols [] st = Inr st"
| "rowsLoop thisYear baseYearGuess cols (row # rows) st =
     andThen (rowStep thisYear baseYearGuess cols st row)
       (rowsLoop thisYear baseYearGuess cols rows)"

definition initialState :: pstate where
  "initialState = \<lparr>currentDate = None, allDates = [], daysAcc = []\<rparr>"

section \<open>Deduplication pass\<close>

text \<open>
  \<^verbatim>\<open>const dedupe = (arr) => { const seen = new Set(); const out = [];
    for (const x of arr) { const k = x.trim(); if (!k) continue;
      if (seen.has(k)) continue; seen.add(k); out.push(k); }
    return out; };\<close>
  The loop carries \<open>seen\<close> and \<open>out\<close>.
\<close>

fun dedupe_loop :: "jsstring list \<Rightarrow> jsstring set \<Rightarrow> jsstring list \<Rightarrow> jsstring list" where
  "dedupe_loop [] seen out = out"
| "dedupe_loop (x # arr) seen out =
     (let k = trim x in
      if k = [] then dedupe_loop arr seen out
      else if k \<in> seen then dedupe_loop arr seen out
      else dedupe_loop arr (insert k seen) (out @ [k]))"

definition dedupe :: "jsstring list \<Rightarrow> jsstring list" where
  "dedupe arr = dedupe_loop arr {} []"

text \<open>
  \<^verbatim>\<open>for (const d of Object.keys(days)) {
    days[d].breakfast = dedupe(days[d].breakfast);
    days[d].lunch = dedupe(days[d].lunch);
    days[d].dinner = dedupe(days[d].dinner);
    const ex = days[d].extras || {};
    for (const k of Object.keys(ex)) ex[k] = dedupe(ex[k]);
    for (const k of Object.keys(ex)) if (!ex[k].length) delete ex[k];
    if (Object.keys(ex).length === 0) delete days[d].extras; }\<close>
\<close>

definition finishDay :: "daymenu \<Rightarrow> daymenu" where
  "finishDay day =
     (let ex = (case extras day of None \<Rightarrow> [] | Some e \<Rightarrow> e);
          ex1 = map (\<lambda>(k, v). (k, dedupe v)) ex;
          ex2 = filter (\<lambda>(k, v). v \<noteq> []) ex1
      in \<lparr>breakfast = dedupe (breakfast day), lunch = dedupe (lunch day),
          dinner = dedupe (dinner day),
          extras = (if ex2 = [] then None else Some ex2)\<rparr>)"

section \<open>Week key\<close>

text \<open>
  \<open>mondayOf\<close> works on a \<open>Date\<close> built at local midnight and reads it back in local
  time, so only the local calendar day matters: a valid \<open>Date\<close> is a triple of year, month
  (from 1) and day of the proleptic Gregorian calendar, an invalid one is \<open>None\<close>.
  \<open>DayFromYear\<close>, the day number and the week day (0 is Sunday; day 0, the first of
  January 1970, is a Thursday) are those of ECMAScript.
\<close>

type_synonym civil = "int \<times> nat \<times> nat"

definition leapYear :: "int \<Rightarrow> bool" where
  "leapYear y \<longleftrightarrow> y mod 4 = 0 \<and> (y mod 100 \<noteq> 0 \<or> y mod 400 = 0)"

definition daysInMonth :: "int \<Rightarrow> nat \<Rightarrow> nat" where
  "daysInMonth y m =
     (if m = 2 then (if leapYear y then 29 else 28)
      else if m = 4 \<or> m = 6 \<or> m = 9 \<or> m = 11 then 30 else 31)"

definition DayFromYear :: "int \<Rightarrow> int" where
  "DayFromYear y =
     365 * (y - 1970) + (y - 1969) div 4 - (y - 1901) div 100 + (y - 1601) div 400"

definition daysBeforeMonth :: "int \<Rightarrow> nat \<Rightarrow> nat" where
  "daysBeforeMonth y m = sum_list (map (daysInMonth y) [1..<m])"

fun dayNumber :: "civil \<Rightarrow> int" where
  "dayNumber (y, m, d) = DayFromYear y + int (daysBeforeMonth y m) + int d - 1"

definition getDay :: "civil \<Rightarrow> nat" where
  "getDay t = nat ((dayNumber t + 4) mod 7)"

text \<open>
  \<open>d.setDate(d.getDate() + diff)\<close> moves the date by \<open>diff\<close> days, into the neighbouring
  months and years where the day of the month leaves its range.
\<close>

fun prevDay :: "civil \<Rightarrow> civil" where
  "prevDay (y, m, d) =
     (if 1 < d then (y, m, d - 1)
      else if 1 < m then (y, m - 1, daysInMonth y (m - 1))
      else (y - 1, 12, 31))"

fun nextDay :: "civil \<Rightarrow> civil" where
  "nextDay (y, m, d) =
     (if d < daysInMonth y m then (y, m, d + 1)
      else if m < 12 then (y, m + 1, 1)
      else (y + 1, 1, 1))"

definition addDays :: "civil \<Rightarrow> int \<Rightarrow> civil" where
  "addDays t k = (if 0 \<le> k then (nextDay ^^ nat k) t else (prevDay ^^ nat (- k)) t)"

text \<open>
  What the parser cannot see of the engine and of the machine it runs on.  Outside its own
  date-time format ECMAScript leaves \<open>new Date(string)\<close> to the implementation:
  \<open>legacyDate\<close> is the engine's answer there.  A time value lies at most \<open>8.64e15\<close>
  milliseconds, that is \<open>maxDay\<close> days, from the epoch; whether the local midnight of a
  day whose number is \<open>maxDay\<close> or \<open>- maxDay\<close> still lies in that range depends on the
  time zone: \<open>edgeDay\<close>.  The local calendar is taken to have every day.
\<close>

record host =
  legacyDate :: "jsstring \<Rightarrow> civil option"
  edgeDay :: "civil \<Rightarrow> bool"

definition maxDay :: int where
  "maxDay = 100000000"

text \<open>
  \<open>TimeClip\<close>, at a local midnight: the \<open>Date\<close> is invalid when its time value leaves
  the range.
\<close>

definition timeClip :: "host \<Rightarrow> civil \<Rightarrow> civil option" where
  "timeClip h t =
     (let n = dayNumber t in
      if - maxDay < n \<and> n < maxDay then Some t
      else if (n = maxDay \<or> n = - maxDay) \<and> edgeDay h t then Some t
      else None)"

text \<open>
  The date part of the date-time format: \<open>YYYY-MM-DD\<close> (\<open>parseYMD\<close>), or with an
  expanded year, a sign and six digits (\<open>parseExpanded\<close>, which returns whether the sign
  is minus and the digits' value).
\<close>

definition parseYMD :: "jsstring \<Rightarrow> civil option" where
  "parseYMD s =
     (if length s = 10 \<and> list_all isDigit (take 4 s) \<and> s ! 4 = 45 \<and>
         list_all isDigit (take 2 (drop 5 s)) \<and> s ! 7 = 45 \<and> list_all isDigit (drop 8 s)
      then Some (int (Number (take 4 s)), Number (take 2 (drop 5 s)), Number (drop 8 s))
      else None)"

definition parseExpanded :: "jsstring \<Rightarrow> (bool \<times> nat \<times> nat \<times> nat) option" where
  "parseExpanded s =
     (if length s = 13 \<and> (s ! 0 = 43 \<or> s ! 0 = 45) \<and> list_all isDigit (take 6 (drop 1 s)) \<and>
         s ! 7 = 45 \<and> list_all isDigit (take 2 (drop 8 s)) \<and> s ! 10 = 45 \<and>
         list_all isDigit (drop 11 s)
      then Some (s ! 0 = 45, Number (take 6 (drop 1 s)), Number (take 2 (drop 8 s)),
                 Number (drop 11 s))
      else None)"

text \<open>
  A month outside 01 to 12 or a day outside 01 to 31 gives an invalid \<open>Date\<close>; a day from
  01 to 31 past the end of its month runs into the next month (V8, which runs the parser
  under Node).
\<close>

definition fromFields :: "host \<Rightarrow> int \<Rightarrow> nat \<Rightarrow> nat \<Rightarrow> civil option" where
  "fromFields h y m d =
     (if 1 \<le> m \<and> m \<le> 12 \<and> 1 \<le> d \<and> d \<le> 31
      then timeClip h (if d \<le> daysInMonth y m then (y, m, d)
                       else (y, m + 1, d - daysInMonth y m))
      else None)"

text \<open>
  \<open>new Date(dateISO + 'T00:00:00')\<close>, a local time.  The year \<open>-000000\<close> is not allowed.
\<close>

definition newDate :: "host \<Rightarrow> jsstring \<Rightarrow> civil option" where
  "newDate h dateISO =
     (case parseYMD dateISO of
        Some (y, m, d) \<Rightarrow> fromFields h y m d
      | None \<Rightarrow>
          (case parseExpanded dateISO of
             Some (neg, y, m, d) \<Rightarrow>
               if neg \<and> y = 0 then None
               else fromFields h (if neg then - int y else int y) m d
           | None \<Rightarrow> legacyDate h dateISO))"

text \<open>
  \<^verbatim>\<open>function mondayOf(dateISO) {
    const d = new Date(dateISO + 'T00:00:00');
    const day = d.getDay(); // 0=Sun
    const diff = (day === 0 ? -6 : 1 - day);
    d.setDate(d.getDate() + diff);
    return toISODate(d.getFullYear(), d.getMonth() + 1, d.getDate()); }\<close>
  Every getter of an invalid \<open>Date\<close> returns NaN and \<open>setDate(NaN)\<close> leaves it invalid;
  \<open>String(NaN).padStart(2, '0')\<close> is \<open>NaN\<close>.  \<open>setDate\<close> clips the time value again.
\<close>

definition mondayOf :: "host \<Rightarrow> jsstring \<Rightarrow> jsstring" where
  "mondayOf h dateISO =
     (case newDate h dateISO of
        None \<Rightarrow> js ''NaN-NaN-NaN''
      | Some t \<Rightarrow>
          (let day = getDay t;
               diff = (if day = 0 then - 6 else 1 - int day)
           in case timeClip h (addDays t diff) of
                None \<Rightarrow> js ''NaN-NaN-NaN''
              | Some (y, m, d) \<Rightarrow> toISODate y m d))"

text \<open>\<open>Array.from(new Set(allDates))\<close>: the first occurrences, in order.\<close>

definition firstOccurrences :: "jsstring list \<Rightarrow> jsstring list" where
  "firstOccurrences xs = foldl (\<lambda>acc x. if x \<in> set acc then acc else acc @ [x]) [] xs"

text \<open>
  \<^verbatim>\<open>const uniqueDates = Array.from(new Set(allDates)).sort();
  const weekStart = uniqueDates.length ? mondayOf(uniqueDates[0]) : null;\<close>
\<close>

definition weekStartOf :: "host \<Rightarrow> jsstring list \<Rightarrow> jsstring option" where
  "weekStartOf h dates =
     (let uniqueDates = sort (firstOccurrences dates)
      in if uniqueDates = [] then None else Some (mondayOf h (hd uniqueDates)))"

section \<open>The parser\<close>

text \<open>
  What \<open>xlsx.readFile\<close> returns, as far as the parser reads it: the sheet names in order,
  and for a sheet the grid that \<open>sheet_to_json\<close> makes of it (the empty grid for a
  missing sheet).  The sheet name looked for first is the Korean for "posted menu".
\<close>

record workbook =
  SheetNames :: "jsstring list"
  Sheets :: "(jsstring \<times> cell list list) list"

record document =
  site :: jsstring
  source_filename :: jsstring
  source_sheet :: "jsstring option"
  weekStart :: "jsstring option"
  days :: "(jsstring \<times> daymenu) list"

definition sheet_posted :: jsstring where
  "sheet_posted = [44172, 49884, 47700, 45684]"

definition sheetNameOf :: "workbook \<Rightarrow> jsstring option" where
  "sheetNameOf wb =
     (if sheet_posted \<in> set (SheetNames wb) then Some sheet_posted
      else (case SheetNames wb of [] \<Rightarrow> None | n # _ \<Rightarrow> Some n))"

definition rowsOf :: "workbook \<Rightarrow> cell list list" where
  "rowsOf wb =
     (case sheetNameOf wb of
        None \<Rightarrow> []
      | Some n \<Rightarrow> (case map_of (Sheets wb) n of None \<Rightarrow> [] | Some g \<Rightarrow> g))"

text \<open>
  \<^verbatim>\<open>export function parseMealExcel(filePath, originalFilename, site) {
    const wb = xlsx.readFile(filePath, { cellDates: true });
    const sheetName = wb.SheetNames.includes(posted) ? posted : wb.SheetNames[0];
    const sheet = wb.Sheets[sheetName];
    const rows = xlsx.utils.sheet_to_json(sheet, { header: 1, raw: true, ... });
    const base = parseBaseDateFromFilename(originalFilename);
    const baseYearGuess = base?.y;
    const detected = detectHeaderColumns(rows);
    const fallback = defaultColumnsForSite(site);
    const mealCols = ...;
    const days = {}; let currentDate = null; let allDates = [];
    for (...) { ... }
    for (const d of Object.keys(days)) { ... }
    const uniqueDates = ...; const weekStart = ...;
    return { site, source: { filename: originalFilename, sheet: sheetName },
      weekStart, days }; }\<close>
  The argument \<open>readFile\<close> is the outcome of \<open>xlsx.readFile(filePath, ...)\<close>: the error
  it throws, or the workbook.  \<open>h\<close> and \<open>thisYear\<close> are the engine and the clock.
\<close>

definition parseMealExcel ::
  "host \<Rightarrow> int \<Rightarrow> error + workbook \<Rightarrow> jsstring \<Rightarrow> jsstring \<Rightarrow> error + document" where
  "parseMealExcel h thisYear readFile originalFilename siteId =
     andThen readFile (\<lambda>wb.
       let rows = rowsOf wb;
           base = parseBaseDateFromFilename originalFilename;
           baseYearGuess = map_option hint_y base
       in
       andThen (columnsFor rows siteId) (\<lambda>cols.
         andThen (rowsLoop thisYear baseYearGuess cols rows initialState) (\<lambda>st.
           Inr \<lparr>site = siteId, source_filename = originalFilename,
                source_sheet = sheetNameOf wb,
                weekStart = weekStartOf h (allDates st),
                days = map (\<lambda>(d, day). (d, finishDay day)) (daysAcc st)\<rparr>)))"

chapter \<open>Vocabulary of the specification\<close>

text \<open>A bucket after the deduplication pass: trimmed, non-empty, pairwise different strings.\<close>

definition clean :: "jsstring list \<Rightarrow> bool" where
  "clean xs \<longleftrightarrow> distinct xs \<and> (\<forall>x\<in>set xs. x \<noteq> [] \<and> trim x = x)"

text \<open>
  A contiguous run of six digits that no digit flanks: \<open>pre\<close> is the text before the run
  \<open>r\<close>, \<open>post\<close> the text after it.  \<open>firstRun6\<close> is the leftmost such run of \<open>s\<close>.
\<close>

definition digitRun6 :: "jsstring \<Rightarrow> jsstring \<Rightarrow> jsstring \<Rightarrow> bool" where
  "digitRun6 pre r post \<longleftrightarrow>
     length r = 6 \<and> list_all isDigit r \<and>
     (pre = [] \<or> \<not> isDigit (last pre)) \<and> (post = [] \<or> \<not> isDigit (hd post))"

definition firstRun6 :: "jsstring \<Rightarrow> jsstring \<Rightarrow> jsstring \<Rightarrow> jsstring \<Rightarrow> bool" where
  "firstRun6 s pre r post \<longleftrightarrow>
     s = pre @ r @ post \<and> digitRun6 pre r post \<and>
     (\<forall>pre' r' post'. s = pre' @ r' @ post' \<and> digitRun6 pre' r' post'
        \<longrightarrow> length pre \<le> length pre')"

text \<open>The run the scanner looks for when the text before it is known to start the string or not.\<close>

definition runAfter :: "bool \<Rightarrow> jsstring \<Rightarrow> jsstring \<Rightarrow> jsstring \<Rightarrow> bool" where
  "runAfter b pre r post \<longleftrightarrow>
     length r = 6 \<and> list_all isDigit r \<and>
     (if pre = [] then b else \<not> isDigit (last pre)) \<and> (post = [] \<or> \<not> isDigit (hd post))"

text \<open>
  A date of the calendar: the month is from 1 to 12 and the day from 1 to the length of
  the month.  \<open>calendarDate s\<close>: the string is a canonical \<open>YYYY-MM-DD\<close> (four, two and
  two digits) and names a date of the calendar; \<open>yearOf\<close> is its year, \<open>isMonday\<close> says
  that it is a Monday, \<open>daysFrom a b\<close> counts the days from \<open>a\<close> to \<open>b\<close>.
\<close>

definition validCivil :: "civil \<Rightarrow> bool" where
  "validCivil t \<longleftrightarrow>
     (case t of (y, m, d) \<Rightarrow> 1 \<le> m \<and> m \<le> 12 \<and> 1 \<le> d \<and> d \<le> daysInMonth y m)"

definition calendarDate :: "jsstring \<Rightarrow> bool" where
  "calendarDate s \<longleftrightarrow> (case parseYMD s of None \<Rightarrow> False | Some t \<Rightarrow> validCivil t)"

definition yearOf :: "jsstring \<Rightarrow> int" where
  "yearOf s = (case parseYMD s of None \<Rightarrow> 0 | Some (y, m, d) \<Rightarrow> y)"

definition isMonday :: "jsstring \<Rightarrow> bool" where
  "isMonday s \<longleftrightarrow> (case parseYMD s of None \<Rightarrow> False | Some t \<Rightarrow> validCivil t \<and> getDay t = 1)"

definition daysFrom :: "jsstring \<Rightarrow> jsstring \<Rightarrow> int option" where
  "daysFrom a b =
     (case (parseYMD a, parseYMD b) of
        (Some s, Some t) \<Rightarrow> Some (dayNumber t - dayNumber s)
      | _ \<Rightarrow> None)"

text \<open>
  A host for the examples: its engine knows the date-time format of ECMAScript only, and
  its time zone leaves both edge days outside the range.
\<close>

definition strictHost :: host where
  "strictHost = \<lparr>legacyDate = (\<lambda>s. None), edgeDay = (\<lambda>t. False)\<rparr>"

text \<open>The date anchors of a grid, top to bottom: the rows whose column 0 is read as a date.\<close>

definition dateAnchors :: "int \<Rightarrow> int option \<Rightarrow> cell list list \<Rightarrow> jsstring list" where
  "dateAnchors thisYear baseYearGuess rows =
     concat (map (\<lambda>row. case normalizeDateCell thisYear (cellAt row 0) baseYearGuess of
                          Inr (Some date) \<Rightarrow> [date] | _ \<Rightarrow> []) rows)"

text \<open>The order of dates, and strings of two and of four decimal digits.\<close>

fun civil_le :: "civil \<Rightarrow> civil \<Rightarrow> bool" where
  "civil_le (y, m, d) (y', m', d') \<longleftrightarrow> y < y' \<or> (y = y' \<and> (m < m' \<or> (m = m' \<and> d \<le> d')))"

definition D2 :: "nat \<Rightarrow> jsstring" where
  "D2 n = [48 + n div 10, 48 + n mod 10]"

definition D4 :: "nat \<Rightarrow> jsstring" where
  "D4 n = [48 + n div 10 div 10 div 10, 48 + n div 10 div 10 mod 10, 48 + n div 10 mod 10,
           48 + n mod 10]"

text \<open>
  The menu items that a row gives for a list of configured columns, cell after cell in the
  order of the list.  \<open>readable\<close>: none of these cells is an invalid \<open>Date\<close>, the one
  value whose text cannot be taken.  \<open>configured\<close> lists every column of a column map.
\<close>

definition cellItems :: "cell list \<Rightarrow> nat \<Rightarrow> jsstring list" where
  "cellItems row c = (case splitMenuItems (cellAt row c) of Inr items \<Rightarrow> items | Inl e \<Rightarrow> [])"

definition rowItems :: "cell list \<Rightarrow> nat list \<Rightarrow> jsstring list" where
  "rowItems row cs = concat (map (cellItems row) cs)"

definition readable :: "cell list \<Rightarrow> nat list \<Rightarrow> bool" where
  "readable row cs \<longleftrightarrow> (\<forall>c\<in>set cs. cellAt row c \<noteq> CDate InvalidDate)"

definition configured :: "columns \<Rightarrow> nat list" where
  "configured cols =
     col_breakfast cols @ col_lunch cols @ col_dinner cols @ concat (map snd (col_extras cols))"

text \<open>
  The extras of a day after a row: label after label in the order of the column map, the
  items of the label's columns go to the end of the label's sequence, which is made when
  the first item arrives.
\<close>

definition extrasAfter ::
  "cell list \<Rightarrow> (jsstring \<times> nat list) list \<Rightarrow> (jsstring \<times> jsstring list) list \<Rightarrow>
     (jsstring \<times> jsstring list) list" where
  "extrasAfter row es ex =
     foldl (\<lambda>acc (ek, cs).
              if rowItems row cs = [] then acc
              else AList.update ek ((case map_of acc ek of None \<Rightarrow> [] | Some v \<Rightarrow> v)
                                     @ rowItems row cs) acc)
       ex es"

text \<open>
  What holds of the state between two rows: the current date has its day, and every day
  has its extras object.
\<close>

definition stateOk :: "pstate \<Rightarrow> bool" where
  "stateOk st \<longleftrightarrow>
     (\<forall>cur. currentDate st = Some cur \<longrightarrow> cur \<in> fst ` set (daysAcc st)) \<and>
     (\<forall>(k, d)\<in>set (daysAcc st). extras d \<noteq> None)"

text \<open>
  The columns of a keyword: a cell of the first 35 rows has the keyword when its text,
  every run of white space made one space and the ends trimmed, contains it.
\<close>

definition cellHas :: "jsstring \<Rightarrow> cell \<Rightarrow> bool" where
  "cellHas kw v =
     (case safeText v of Inr t \<Rightarrow> includesStr (trim (collapseSpaces t)) kw | Inl e \<Rightarrow> False)"

definition keywordColumns :: "jsstring \<Rightarrow> cell list list \<Rightarrow> nat set" where
  "keywordColumns kw rows =
     (\<Union>row\<in>set (take 35 rows). {c. c < length row \<and> cellHas kw (row ! c)})"

text \<open>
  A text with an \<open>M/D\<close> pattern at its first digit: \<open>pre\<close> has no digit, \<open>a\<close> and \<open>b\<close>
  are one or two digits, white space may stand on both sides of the slash, and what
  follows (a weekday in parentheses, say) does not start with a digit.
\<close>

definition mdText ::
  "jsstring \<Rightarrow> jsstring \<Rightarrow> jsstring \<Rightarrow> jsstring \<Rightarrow> jsstring \<Rightarrow> jsstring \<Rightarrow> jsstring \<Rightarrow> bool"
  where
  "mdText pre a wa wb b rest s \<longleftrightarrow>
     s = pre @ a @ wa @ [47] @ wb @ b @ rest \<and>
     list_all (\<lambda>c. \<not> isDigit c) pre \<and>
     (length a = 1 \<or> length a = 2) \<and> list_all isDigit a \<and>
     list_all isSpace wa \<and> list_all isSpace wb \<and>
     (length b = 1 \<or> length b = 2) \<and> list_all isDigit b \<and>
     (case rest of [] \<Rightarrow> True | c # r \<Rightarrow> \<not> isDigit c)"

chapter \<open>Properties\<close>

section \<open>Trimming and deduplication\<close>

lemma trim_Nil [simp]: "trim [] = []"
  by (simp add: trim_def)

lemma dropWhile_rev_dropWhile_hd:
  assumes "rev (dropWhile P (rev xs)) \<noteq> []" and "xs \<noteq> []" and "\<not> P (hd xs)"
  shows "\<not> P (hd (rev (dropWhile P (rev xs))))"
proof -
  obtain x xs' where xs: "xs = x # xs'"
    using assms(2) by (cases xs) auto
  from assms(3) xs have "dropWhile P (rev xs) = dropWhile P (rev xs') @ [x]"
    by (auto simp: dropWhile_append)
  then show ?thesis
    using assms(3) xs by simp
qed

lemma trim_head: "trim s \<noteq> [] \<Longrightarrow> \<not> isSpace (hd (trim s))"
proof -
  assume ne: "trim s \<noteq> []"
  let ?t = "dropWhile isSpace s"
  from ne have t: "?t \<noteq> []"
    by (cases "?t = []") (simp_all add: trim_def)
  then have "\<not> isSpace (hd ?t)"
    by (rule hd_dropWhile)
  with ne t show ?thesis
    unfolding trim_def by (rule dropWhile_rev_dropWhile_hd)
qed

lemma trim_last: "trim s \<noteq> [] \<Longrightarrow> \<not> isSpace (last (trim s))"
proof -
  assume ne: "trim s \<noteq> []"
  let ?r = "dropWhile isSpace (rev (dropWhile isSpace s))"
  from ne have r: "?r \<noteq> []"
    by (simp add: trim_def)
  then have "\<not> isSpace (hd ?r)"
    by (rule hd_dropWhile)
  with r show ?thesis
    by (simp add: trim_def last_rev)
qed

lemma trim_fixed:
  assumes "s \<noteq> []" and "\<not> isSpace (hd s)" and "\<not> isSpace (last s)"
  shows "trim s = s"
proof -
  from assms(1,2) have a: "dropWhile isSpace s = s"
    by (cases s) auto
  from assms(1,3) have b: "dropWhile isSpace (rev s) = rev s"
    by (cases "rev s") (auto simp: last_rev [symmetric] simp del: last_rev)
  show ?thesis
    by (simp add: trim_def a b)
qed

lemma trim_idem: "trim (trim s) = trim s"
proof (cases "trim s = []")
  case True
  then show ?thesis by simp
next
  case False
  then show ?thesis
    by (simp add: trim_fixed trim_head trim_last)
qed

lemma dedupe_loop_clean:
  "clean out \<Longrightarrow> set out \<subseteq> seen \<Longrightarrow> clean (dedupe_loop arr seen out)"
proof (induction arr arbitrary: seen out)
  case Nil
  then show ?case by simp
next
  case (Cons x arr)
  let ?k = "trim x"
  show ?case
  proof (cases "?k = [] \<or> ?k \<in> seen")
    case True
    with Cons show ?thesis by (auto simp: Let_def)
  next
    case False
    with Cons.prems have "clean (out @ [?k])" and "set (out @ [?k]) \<subseteq> insert ?k seen"
      by (auto simp: clean_def trim_idem)
    then have "clean (dedupe_loop arr (insert ?k seen) (out @ [?k]))"
      by (rule Cons.IH)
    with False show ?thesis by (simp add: Let_def)
  qed
qed

lemma dedupe_clean: "clean (dedupe arr)"
  unfolding dedupe_def by (rule dedupe_loop_clean) (simp_all add: clean_def)

lemma dedupe_loop_fixed:
  "clean ys \<Longrightarrow> set ys \<inter> seen = {} \<Longrightarrow> dedupe_loop ys seen out = out @ ys"
proof (induction ys arbitrary: seen out)
  case Nil
  then show ?case by simp
next
  case (Cons y ys)
  from Cons.prems have y: "trim y = y" "y \<noteq> []" "y \<notin> seen" "y \<notin> set ys"
    by (auto simp: clean_def)
  from Cons.prems have "clean ys" and "set ys \<inter> insert y seen = {}"
    by (auto simp: clean_def)
  then have "dedupe_loop ys (insert y seen) (out @ [y]) = (out @ [y]) @ ys"
    by (rule Cons.IH)
  with y show ?case by simp
qed

text \<open>
  C6.  Idempotence of deduplication: for every sequence of strings, applying \<open>dedupe\<close> to the
  result of \<open>dedupe\<close> gives that result again.
\<close>

theorem C6_dedupe_idempotent: "dedupe (dedupe arr) = dedupe arr"
proof -
  have "clean (dedupe arr)"
    by (rule dedupe_clean)
  then have "dedupe_loop (dedupe arr) {} [] = [] @ dedupe arr"
    by (rule dedupe_loop_fixed) simp
  then show ?thesis
    by (simp add: dedupe_def [of "dedupe arr"])
qed

section \<open>Filename date hint\<close>

lemma orElse_simps [simp]:
  "orElse None b = b" "orElse (Some x) b = Some x"
  by (simp_all add: orElse_def)

lemma orElse_None_iff: "orElse a b = None \<longleftrightarrow> a = None \<and> b = None"
  by (cases a) simp_all

lemma digitRun6_runAfter: "digitRun6 pre r post = runAfter True pre r post"
  by (auto simp: digitRun6_def runAfter_def)

lemma sixDigits_Some:
  "sixDigits t = Some r \<longleftrightarrow> (\<exists>post. t = r @ post \<and> runAfter True [] r post)"
proof
  assume "sixDigits t = Some r"
  then have *: "6 \<le> length t" "list_all isDigit (take 6 t)" "r = take 6 t"
    "(case drop 6 t of [] \<Rightarrow> True | c # _ \<Rightarrow> \<not> isDigit c)"
    by (auto simp: sixDigits_def split: if_splits)
  have "t = r @ drop 6 t" using * by simp
  moreover have "runAfter True [] r (drop 6 t)"
    using * by (auto simp: runAfter_def split: list.splits)
  ultimately show "\<exists>post. t = r @ post \<and> runAfter True [] r post" by blast
next
  assume "\<exists>post. t = r @ post \<and> runAfter True [] r post"
  then obtain post where "t = r @ post" "runAfter True [] r post" by blast
  then show "sixDigits t = Some r"
    by (auto simp: sixDigits_def runAfter_def split: list.splits)
qed

lemma sixDigits_None:
  "sixDigits t = None \<Longrightarrow> t = r @ post \<Longrightarrow> \<not> runAfter True [] r post"
  using sixDigits_Some [of t r] by auto

lemma runAfter_Cons:
  "runAfter b (c # p) r post \<longleftrightarrow>
     (if p = [] then \<not> isDigit c \<and> runAfter True [] r post else runAfter False p r post)"
  by (auto simp: runAfter_def)

lemma find6_None:
  "find6 b s = None \<Longrightarrow> s = pre @ r @ post \<Longrightarrow> \<not> runAfter b pre r post"
proof (induction s arbitrary: b pre)
  case Nil
  then show ?case by (auto simp: runAfter_def)
next
  case (Cons c t)
  from Cons.prems(1) have n1: "b \<Longrightarrow> sixDigits (c # t) = None"
    and n2: "\<not> isDigit c \<Longrightarrow> sixDigits t = None"
    and n3: "find6 False t = None"
    by (auto simp: orElse_None_iff split: if_splits)
  show ?case
  proof (cases pre)
    case Nil
    show ?thesis
    proof (cases b)
      case True
      with n1 Cons.prems(2) Nil show ?thesis
        using sixDigits_None [of "c # t" r post] by simp
    next
      case False
      with Nil show ?thesis by (simp add: runAfter_def)
    qed
  next
    case (Cons c' p)
    with Cons.prems(2) have c: "c' = c" and t: "t = p @ r @ post" by simp_all
    show ?thesis
    proof (cases "p = []")
      case True
      then show ?thesis
        using n2 t sixDigits_None [of t r post] by (auto simp: Cons c runAfter_Cons)
    next
      case False
      then show ?thesis
        using Cons.IH [OF n3 t] by (simp add: Cons c runAfter_Cons)
    qed
  qed
qed

lemma find6_Some:
  "find6 b s = Some r \<Longrightarrow>
   \<exists>pre post. s = pre @ r @ post \<and> runAfter b pre r post \<and>
     (\<forall>pre' r' post'. s = pre' @ r' @ post' \<and> runAfter b pre' r' post'
        \<longrightarrow> length pre \<le> length pre')"
proof (induction s arbitrary: b)
  case Nil
  then show ?case by simp
next
  case (Cons c t)
  show ?case
  proof (cases "b \<and> sixDigits (c # t) \<noteq> None")
    case True
    with Cons.prems have "sixDigits (c # t) = Some r" by auto
    then obtain post where "c # t = r @ post" "runAfter True [] r post"
      by (auto simp: sixDigits_Some)
    with True have "c # t = [] @ r @ post \<and> runAfter b [] r post" by simp
    then show ?thesis by (metis le0 list.size(3))
  next
    case n1: False
    then have no0: "\<And>r' post'. c # t = r' @ post' \<Longrightarrow> \<not> runAfter b [] r' post'"
      using sixDigits_None [of "c # t"] by (cases b) (auto simp: runAfter_def)
    from n1 have s0: "(if b then sixDigits (c # t) else None) = None" by auto
    show ?thesis
    proof (cases "\<not> isDigit c \<and> sixDigits t \<noteq> None")
      case True
      with s0 Cons.prems have "sixDigits t = Some r" by auto
      then obtain post where p: "t = r @ post" "runAfter True [] r post"
        by (auto simp: sixDigits_Some)
      with True have a: "c # t = [c] @ r @ post \<and> runAfter b [c] r post"
        by (simp add: runAfter_Cons)
      have "length [c] \<le> length pre'"
        if "c # t = pre' @ r' @ post' \<and> runAfter b pre' r' post'" for pre' r' post'
        using that no0 by (cases pre') auto
      with a show ?thesis by blast
    next
      case n2: False
      then have s1: "(if \<not> isDigit c then sixDigits t else None) = None" by auto
      with s0 Cons.prems have f: "find6 False t = Some r" by simp
      from Cons.IH [OF f] obtain pre post where
        p: "t = pre @ r @ post" "runAfter False pre r post"
        and least: "\<And>pre' r' post'. t = pre' @ r' @ post' \<Longrightarrow> runAfter False pre' r' post'
          \<Longrightarrow> length pre \<le> length pre'"
        by blast
      from p have pne: "pre \<noteq> []" by (auto simp: runAfter_def)
      from n2 have no1: "\<And>r' post'. t = r' @ post'
          \<Longrightarrow> \<not> (\<not> isDigit c \<and> runAfter True [] r' post')"
        using sixDigits_None [of t] by auto
      have a: "c # t = (c # pre) @ r @ post \<and> runAfter b (c # pre) r post"
        using p pne by (simp add: runAfter_Cons)
      have "length (c # pre) \<le> length pre'"
        if h: "c # t = pre' @ r' @ post' \<and> runAfter b pre' r' post'" for pre' r' post'
      proof (cases pre')
        case Nil
        with h no0 show ?thesis by auto
      next
        case (Cons c' q)
        with h have c: "c' = c" and t: "t = q @ r' @ post'" by simp_all
        show ?thesis
        proof (cases "q = []")
          case True
          with h Cons c t no1 [of r' post'] show ?thesis by (auto simp: runAfter_Cons)
        next
          case False
          with h Cons c have "runAfter False q r' post'" by (simp add: runAfter_Cons)
          from least [OF t this] Cons show ?thesis by simp
        qed
      qed
      with a show ?thesis by blast
    qed
  qed
qed

lemma firstRun6_unique:
  assumes "firstRun6 s pre r post" and "firstRun6 s pre' r' post'"
  shows "r' = r"
proof -
  from assms have "length pre \<le> length pre'" and "length pre' \<le> length pre"
    unfolding firstRun6_def by blast+
  then have l: "length pre = length pre'" by simp
  from assms have "pre @ r @ post = pre' @ r' @ post'" "length r = length r'"
    by (auto simp: firstRun6_def digitRun6_def)
  with l show ?thesis by simp
qed

lemma find6_firstRun6:
  assumes "firstRun6 s pre r post"
  shows "find6 True s = Some r"
proof (cases "find6 True s")
  case None
  with assms show ?thesis
    using find6_None [of True s pre r post] by (simp add: firstRun6_def digitRun6_runAfter)
next
  case (Some r')
  from find6_Some [OF this] obtain pre' post' where "firstRun6 s pre' r' post'"
    unfolding firstRun6_def digitRun6_runAfter by blast
  with assms have "r' = r" by (rule firstRun6_unique)
  with Some show ?thesis by simp
qed

lemma find6_no_run:
  assumes "\<forall>pre r post. s = pre @ r @ post \<longrightarrow> \<not> digitRun6 pre r post"
  shows "find6 True s = None"
proof (cases "find6 True s")
  case None
  then show ?thesis .
next
  case (Some r)
  from find6_Some [OF this] assms show ?thesis
    unfolding digitRun6_runAfter by blast
qed

lemmas eval_filename =
  parseBaseDateFromFilename_def js_def basename_def sixDigits_def isDigit_def Number_def

text \<open>
  C9 (as stated) fails: the filename \<open>260100.xlsx\<close> holds the six-digit run \<open>260100\<close>,
  flanked by no digit, and yet no hint comes back, since the day is zero.
\<close>

theorem C9_counterexample_zero_day:
  "firstRun6 (js ''260100.xlsx'') [] (js ''260100'') (js ''.xlsx'') \<and>
   parseBaseDateFromFilename (js ''260100.xlsx'') = None"
  by (simp add: firstRun6_def digitRun6_def eval_filename)

text \<open>
  C9 (amended).  \<open>parseBaseDateFromFilename\<close> never raises.  It looks at the base name of
  the filename (the part after the last slash).  When the base name holds a run of six
  digits that no digit flanks, the leftmost such run, read as YYMMDD, gives the hint
  \<open>{y: 2000 + YY, mo: MM, d: DD}\<close> if MM and DD are both non-zero, and nothing-found if
  one of them is zero; when the base name holds no such run, the result is nothing-found.
  \<open>260112_mealplan.xlsx\<close> gives \<open>{y: 2026, mo: 1, d: 12}\<close> and \<open>mealplan.xlsx\<close> gives
  nothing-found.
\<close>

theorem C9_filename_hint:
  "(firstRun6 (basename filename) pre r post \<longrightarrow>
      parseBaseDateFromFilename filename =
        (if Number (take 2 (drop 2 r)) = 0 \<or> Number (take 2 (drop 4 r)) = 0 then None
         else Some \<lparr>hint_y = 2000 + int (Number (take 2 r)),
                    hint_mo = Number (take 2 (drop 2 r)),
                    hint_d = Number (take 2 (drop 4 r))\<rparr>)) \<and>
   ((\<forall>pre r post. basename filename = pre @ r @ post \<longrightarrow> \<not> digitRun6 pre r post) \<longrightarrow>
      parseBaseDateFromFilename filename = None) \<and>
   parseBaseDateFromFilename (js ''260112_mealplan.xlsx'') =
     Some \<lparr>hint_y = 2026, hint_mo = 1, hint_d = 12\<rparr> \<and>
   parseBaseDateFromFilename (js ''mealplan.xlsx'') = None"
proof (intro conjI impI)
  assume "firstRun6 (basename filename) pre r post"
  then have "find6 True (basename filename) = Some r"
    by (rule find6_firstRun6)
  then show "parseBaseDateFromFilename filename =
        (if Number (take 2 (drop 2 r)) = 0 \<or> Number (take 2 (drop 4 r)) = 0 then None
         else Some \<lparr>hint_y = 2000 + int (Number (take 2 r)),
                    hint_mo = Number (take 2 (drop 2 r)),
                    hint_d = Number (take 2 (drop 4 r))\<rparr>)"
    by (simp add: parseBaseDateFromFilename_def Let_def)
next
  assume "\<forall>pre r post. basename filename = pre @ r @ post \<longrightarrow> \<not> digitRun6 pre r post"
  then have "find6 True (basename filename) = None"
    by (rule find6_no_run)
  then show "parseBaseDateFromFilename filename = None"
    by (simp add: parseBaseDateFromFilename_def)
next
  show "parseBaseDateFromFilename (js ''260112_mealplan.xlsx'') =
     Some \<lparr>hint_y = 2026, hint_mo = 1, hint_d = 12\<rparr>"
    by (simp add: eval_filename)
next
  show "parseBaseDateFromFilename (js ''mealplan.xlsx'') = None"
    by (simp add: eval_filename)
qed

theorem C9_filename_hint_witness:
  "firstRun6 (basename (js ''up/260113 menu.xlsx'')) [] (js ''260113'') (js '' menu.xlsx'') \<and>
   parseBaseDateFromFilename (js ''up/260113 menu.xlsx'') =
     Some \<lparr>hint_y = 2026, hint_mo = 1, hint_d = 13\<rparr> \<and>
   parseBaseDateFromFilename (js ''menu.xlsx'') = None"
proof -
  let ?f = "js ''up/260113 menu.xlsx''" and ?g = "js ''menu.xlsx''"
  have h1: "firstRun6 (basename ?f) [] (js ''260113'') (js '' menu.xlsx'')"
    by (simp add: firstRun6_def digitRun6_def js_def basename_def isDigit_def)
  have h2: "\<forall>pre r post. basename ?g = pre @ r @ post \<longrightarrow> \<not> digitRun6 pre r post"
  proof (intro allI impI notI)
    fix pre r post
    assume e: "basename ?g = pre @ r @ post" and d: "digitRun6 pre r post"
    from d obtain c where c: "c \<in> set r" "isDigit c"
      by (cases r) (auto simp: digitRun6_def)
    from c(1) have "c \<in> set (pre @ r @ post)" by simp
    with e have "c \<in> set (basename ?g)" by simp
    with c(2) show False
      by (auto simp: js_def basename_def isDigit_def)
  qed
  from h1 C9_filename_hint [of ?f "[]" "js ''260113''" "js '' menu.xlsx''"]
  have "parseBaseDateFromFilename ?f = Some \<lparr>hint_y = 2026, hint_mo = 1, hint_d = 13\<rparr>"
    by (simp add: js_def Number_def)
  moreover from h2 C9_filename_hint [of ?g] have "parseBaseDateFromFilename ?g = None"
    by blast
  ultimately show ?thesis using h1 by simp
qed

section \<open>Calendar\<close>

lemma div_step:
  fixes a n :: int
  assumes "1 < n"
  shows "(a + 1) div n = a div n + (if (a + 1) mod n = 0 then 1 else 0)"
proof -
  have r: "0 \<le> a mod n" "a mod n < n"
    using assms by simp_all
  have a: "a + 1 = n * (a div n) + (a mod n + 1)"
    by simp
  show ?thesis
  proof (cases "a mod n + 1 = n")
    case True
    with a have "a + 1 = n * (a div n) + n" by simp
    then have "a + 1 = n * (a div n + 1)"
      by (simp add: distrib_left)
    then have "(a + 1) div n = a div n + 1" "(a + 1) mod n = 0"
      using assms by simp_all
    then show ?thesis by simp
  next
    case False
    with r have s: "0 \<le> a mod n + 1" "a mod n + 1 < n" by simp_all
    have "(a + 1) div n = (n * (a div n) + (a mod n + 1)) div n"
      using a by simp
    also have "\<dots> = a div n + (a mod n + 1) div n"
      using assms by (subst div_mult_self4) simp_all
    also have "(a mod n + 1) div n = 0"
      using s by (rule div_pos_pos_trivial)
    finally have d: "(a + 1) div n = a div n" by simp
    have "(a + 1) mod n = (n * (a div n) + (a mod n + 1)) mod n"
      using a by simp
    also have "\<dots> = (a mod n + 1) mod n"
      by (rule mod_mult_self4)
    also have "\<dots> = a mod n + 1"
      using s by (rule mod_pos_pos_trivial)
    finally have "(a + 1) mod n \<noteq> 0" using r by simp
    with d show ?thesis by simp
  qed
qed

lemma mod_shift: "(y - k * n) mod n = y mod n" for y k n :: int
proof -
  have "(y + (- k) * n) mod n = y mod n"
    by (rule mod_mult_self1)
  then show ?thesis by simp
qed

lemma leap_tests:
  "(y - 1968) mod 4 = y mod 4" "(y - 1900) mod 100 = y mod 100" "(y - 1600) mod 400 = y mod 400"
  for y :: int
  using mod_shift [of y 492 4] mod_shift [of y 19 100] mod_shift [of y 4 400] by simp_all

lemma mod_4_100: "y mod 100 = 0 \<Longrightarrow> y mod 4 = 0" for y :: int
proof -
  assume "y mod 100 = 0"
  then have "100 dvd y" by (simp add: mod_eq_0_iff_dvd)
  moreover have "(4::int) dvd 100" by simp
  ultimately have "4 dvd y" by (rule dvd_trans [rotated])
  then show ?thesis by (simp add: mod_eq_0_iff_dvd)
qed

lemma mod_100_400: "y mod 400 = 0 \<Longrightarrow> y mod 100 = 0" for y :: int
proof -
  assume "y mod 400 = 0"
  then have "400 dvd y" by (simp add: mod_eq_0_iff_dvd)
  moreover have "(100::int) dvd 400" by simp
  ultimately have "100 dvd y" by (rule dvd_trans [rotated])
  then show ?thesis by (simp add: mod_eq_0_iff_dvd)
qed

lemma step4: "(y - 1968) div 4 = (y - 1969) div 4 + (if y mod 4 = 0 then 1 else 0)" for y :: int
  using div_step [of 4 "y - 1969"] leap_tests(1) [of y] by simp

lemma step100: "(y - 1900) div 100 = (y - 1901) div 100 + (if y mod 100 = 0 then 1 else 0)"
  for y :: int
  using div_step [of 100 "y - 1901"] leap_tests(2) [of y] by simp

lemma step400: "(y - 1600) div 400 = (y - 1601) div 400 + (if y mod 400 = 0 then 1 else 0)"
  for y :: int
  using div_step [of 400 "y - 1601"] leap_tests(3) [of y] by simp

lemma DayFromYear_next: "DayFromYear (y + 1) = DayFromYear y + (if leapYear y then 366 else 365)"
proof -
  define A B C where "A = (y - 1969) div 4" and "B = (y - 1901) div 100"
    and "C = (y - 1601) div 400"
  define p4 p100 p400 where "p4 \<longleftrightarrow> y mod 4 = 0" and "p100 \<longleftrightarrow> y mod 100 = 0"
    and "p400 \<longleftrightarrow> y mod 400 = 0"
  have e: "y + 1 - 1970 = y - 1969" "y + 1 - 1969 = y - 1968" "y + 1 - 1901 = y - 1900"
    "y + 1 - 1601 = y - 1600"
    by simp_all
  have now: "DayFromYear y = 365 * (y - 1970) + A - B + C"
    by (simp only: DayFromYear_def A_def B_def C_def)
  have nxt: "DayFromYear (y + 1) =
      365 * (y - 1969) + (A + (if p4 then 1 else 0)) - (B + (if p100 then 1 else 0))
        + (C + (if p400 then 1 else 0))"
    by (simp only: DayFromYear_def e step4 step100 step400 A_def B_def C_def
        p4_def p100_def p400_def)
  have leap: "leapYear y \<longleftrightarrow> p4 \<and> (\<not> p100 \<or> p400)"
    by (simp only: leapYear_def p4_def p100_def p400_def)
  have imp: "p100 \<longrightarrow> p4" "p400 \<longrightarrow> p100"
    unfolding p4_def p100_def p400_def
    using mod_4_100 [of y] mod_100_400 [of y] by blast+
  show ?thesis
    unfolding now nxt leap using imp by (cases p4; cases p100; cases p400) simp_all
qed

lemma daysBeforeMonth_1 [simp]: "daysBeforeMonth y (Suc 0) = 0"
  by (simp add: daysBeforeMonth_def)

lemma daysBeforeMonth_Suc:
  "1 \<le> m \<Longrightarrow> daysBeforeMonth y (Suc m) = daysBeforeMonth y m + daysInMonth y m"
  by (simp add: daysBeforeMonth_def)

lemma upt_1_12: "[Suc 0..<12] = [1, 2, 3, 4, 5, 6, 7, 8, 9, 10, 11]"
  by (simp add: upt_conv_Cons)

lemma daysBeforeMonth_12: "daysBeforeMonth y 12 = (if leapYear y then 335 else 334)"
  by (simp add: daysBeforeMonth_def daysInMonth_def upt_1_12)

lemma validCivil_simp [simp]:
  "validCivil (y, m, d) \<longleftrightarrow> 1 \<le> m \<and> m \<le> 12 \<and> 1 \<le> d \<and> d \<le> daysInMonth y m"
  by (simp add: validCivil_def)

lemma daysInMonth_bounds: "28 \<le> daysInMonth y m" "daysInMonth y m \<le> 31"
  by (simp_all add: daysInMonth_def)

lemma daysInMonth_12 [simp]: "daysInMonth y 12 = 31"
  by (simp add: daysInMonth_def)

lemma DayFromYear_prev: "DayFromYear (y - 1) = DayFromYear y - (if leapYear (y - 1) then 366 else 365)"
  using DayFromYear_next [of "y - 1"] by simp

lemma dayNumber_prevDay:
  assumes "validCivil t"
  shows "validCivil (prevDay t) \<and> dayNumber (prevDay t) = dayNumber t - 1"
proof -
  obtain y m d where t: "t = (y, m, d)" by (cases t)
  from assms t have v: "1 \<le> m" "m \<le> 12" "1 \<le> d" "d \<le> daysInMonth y m" by simp_all
  show ?thesis
  proof (cases "1 < d")
    case True
    with v t show ?thesis by (auto simp: int_ops)
  next
    case d1: False
    with v have d: "d = 1" by simp
    show ?thesis
    proof (cases "1 < m")
      case True
      then obtain k where k: "m = Suc k" "1 \<le> k" by (cases m) auto
      from daysBeforeMonth_Suc [OF k(2), of y] k
      have "daysBeforeMonth y m = daysBeforeMonth y k + daysInMonth y k" by simp
      with True v d t k daysInMonth_bounds [of y k] show ?thesis by simp
    next
      case False
      with v have m: "m = 1" by simp
      have "dayNumber (y - 1, 12, 31) = DayFromYear y - 1"
        by (simp add: DayFromYear_prev daysBeforeMonth_12)
      with m d t show ?thesis by simp
    qed
  qed
qed

lemma dayNumber_back:
  "validCivil t \<Longrightarrow>
     validCivil ((prevDay ^^ k) t) \<and> dayNumber ((prevDay ^^ k) t) = dayNumber t - int k"
proof (induction k)
  case 0
  then show ?case by simp
next
  case (Suc k)
  then have "validCivil ((prevDay ^^ k) t)"
    and "dayNumber ((prevDay ^^ k) t) = dayNumber t - int k"
    by simp_all
  with dayNumber_prevDay [of "(prevDay ^^ k) t"] show ?case by simp
qed

lemma civil_le_refl: "civil_le t t"
  by (cases t) simp

lemma civil_le_trans: "civil_le a b \<Longrightarrow> civil_le b c \<Longrightarrow> civil_le a c"
  by (cases a; cases b; cases c) auto

lemma civil_le_prevDay: "civil_le (prevDay t) t"
  by (cases t) auto

lemma civil_le_back: "civil_le ((prevDay ^^ k) t) t"
proof (induction k)
  case 0
  then show ?case by (simp add: civil_le_refl)
next
  case (Suc k)
  have "civil_le (prevDay ((prevDay ^^ k) t)) ((prevDay ^^ k) t)"
    by (rule civil_le_prevDay)
  with Suc show ?case by (auto intro: civil_le_trans)
qed

text \<open>Going back at most six days leaves the year or ends in the last days of the year before.\<close>

lemma year_back:
  assumes "validCivil t" and "k \<le> 6"
  shows "fst ((prevDay ^^ k) t) = fst t \<or>
         (fst ((prevDay ^^ k) t) = fst t - 1 \<and> fst (snd ((prevDay ^^ k) t)) = 12 \<and>
          31 < snd (snd ((prevDay ^^ k) t)) + k)"
  using assms(2)
proof (induction k)
  case 0
  then show ?case by simp
next
  case (Suc k)
  then have IH: "fst ((prevDay ^^ k) t) = fst t \<or>
         (fst ((prevDay ^^ k) t) = fst t - 1 \<and> fst (snd ((prevDay ^^ k) t)) = 12 \<and>
          31 < snd (snd ((prevDay ^^ k) t)) + k)" by simp
  obtain y m d where s: "(prevDay ^^ k) t = (y, m, d)" by (cases "(prevDay ^^ k) t")
  from Suc.prems have k: "k < 6" by simp
  from IH s k show ?case by auto
qed

lemma year_back_ge: "validCivil t \<Longrightarrow> k \<le> 6 \<Longrightarrow> fst t - 1 \<le> fst ((prevDay ^^ k) t)"
  using year_back [of t k] by auto

lemma monday_arith:
  fixes n :: int
  defines "day \<equiv> nat ((n + 4) mod 7)"
  shows "(n + (if day = 0 then - 6 else 1 - int day) + 4) mod 7 = 1"
proof -
  define r q where "r = (n + 4) mod 7" and "q = (n + 4) div 7"
  have r: "0 \<le> r" "r < 7" by (simp_all add: r_def)
  have "n + 4 = 7 * q + r" by (simp add: r_def q_def)
  then have n: "n = 7 * q + r - 4" by simp
  have day: "int day = r" using r by (simp add: day_def r_def)
  have one: "(1 + k * 7) mod 7 = 1" for k :: int
    by simp
  show ?thesis
  proof (cases "day = 0")
    case True
    with day have "r = 0" by simp
    with n have "n + (if day = 0 then - 6 else 1 - int day) + 4 = 1 + (q - 1) * 7"
      using True by simp
    then show ?thesis by (simp only: one)
  next
    case False
    with n day have "n + (if day = 0 then - 6 else 1 - int day) + 4 = 1 + q * 7"
      by simp
    then show ?thesis by (simp only: one)
  qed
qed

section \<open>Decimal strings\<close>

lemma isDigit_48 [simp]: "isDigit (48 + k) \<longleftrightarrow> k < 10"
  by (auto simp: isDigit_def)

lemma Number_Nil [simp]: "Number [] = 0"
  by (simp add: Number_def)

lemma Number_snoc [simp]: "Number (ds @ [c]) = 10 * Number ds + (c - 48)"
  by (simp add: Number_def)

lemma Number_1 [simp]: "Number [a] = a - 48"
  using Number_snoc [of "[]" a] by simp

lemma Number_2 [simp]: "Number [a, b] = 10 * (a - 48) + (b - 48)"
  using Number_snoc [of "[a]" b] by simp

lemma Number_4: "Number [a, b, c, e] = 10 * (10 * (10 * (a - 48) + (b - 48)) + (c - 48)) + (e - 48)"
  by (simp add: Number_def)

lemma String_nat_1: "n < 10 \<Longrightarrow> String_nat n = [48 + n]"
  by (simp add: String_nat.simps)

lemma String_nat_step: "10 \<le> n \<Longrightarrow> String_nat n = String_nat (n div 10) @ [48 + n mod 10]"
  by (subst String_nat.simps) simp

lemma pad2: "n < 100 \<Longrightarrow> padStart 2 48 (String_nat n) = D2 n"
proof (cases "n < 10")
  case True
  then show ?thesis by (simp add: String_nat_1 padStart_def D2_def)
next
  case False
  assume "n < 100"
  with False have "n div 10 < 10" "10 \<le> n" by simp_all
  then show ?thesis
    by (simp add: String_nat_step String_nat_1 padStart_def D2_def)
qed

lemma String_nat_4: "1000 \<le> n \<Longrightarrow> n < 10000 \<Longrightarrow> String_nat n = D4 n"
proof -
  assume n: "1000 \<le> n" "n < 10000"
  then have a: "10 \<le> n" "10 \<le> n div 10" "10 \<le> n div 10 div 10" "n div 10 div 10 div 10 < 10"
    by simp_all
  show ?thesis
    by (simp add: String_nat_step [OF a(1)] String_nat_step [OF a(2)] String_nat_step [OF a(3)]
        String_nat_1 [OF a(4)] D4_def)
qed

lemma Number_D2: "Number (D2 n) = n"
  by (simp add: D2_def)

lemma Number_D4: "Number (D4 n) = n"
  by (simp add: D4_def Number_4)

lemma toISODate_plain:
  assumes "1000 \<le> y" "y < 10000" "m < 100" "d < 100"
  shows "toISODate y m d = D4 (nat y) @ [45] @ D2 m @ [45] @ D2 d"
proof -
  from assms have "String_int y = D4 (nat y)"
    by (simp add: String_int_def String_nat_4)
  with assms show ?thesis
    by (simp add: toISODate_def pad2)
qed

lemma D2_digits: "n < 100 \<Longrightarrow> list_all isDigit (D2 n)"
  by (simp add: D2_def)

lemma D4_digits: "n < 10000 \<Longrightarrow> list_all isDigit (D4 n)"
  by (simp add: D4_def)

lemma parseYMD_toISODate:
  assumes "1000 \<le> y" "y < 10000" "m < 100" "d < 100"
  shows "parseYMD (toISODate y m d) = Some (y, m, d)"
proof -
  have s: "toISODate y m d = D4 (nat y) @ [45] @ D2 m @ [45] @ D2 d"
    using assms by (rule toISODate_plain)
  have l: "length (D4 (nat y)) = 4" "length (D2 m) = 2" "length (D2 d) = 2"
    by (simp_all add: D4_def D2_def)
  have t4: "take 4 (toISODate y m d) = D4 (nat y)"
    unfolding s using l by simp
  have t2: "take 2 (drop 5 (toISODate y m d)) = D2 m"
    unfolding s using l by simp
  have t8: "drop 8 (toISODate y m d) = D2 d"
    unfolding s using l by simp
  have n: "toISODate y m d ! 4 = 45" "toISODate y m d ! 7 = 45" "length (toISODate y m d) = 10"
    unfolding s by (simp_all add: D4_def D2_def)
  from assms have dg: "list_all isDigit (D4 (nat y))" "list_all isDigit (D2 m)"
    "list_all isDigit (D2 d)"
    by (simp_all add: D4_digits D2_digits)
  show ?thesis
    using assms(1) by (simp add: parseYMD_def t4 t2 t8 n dg Number_D4 Number_D2)
qed

lemma digit_cases: "isDigit a \<Longrightarrow> \<exists>k<10. a = 48 + k"
proof -
  assume "isDigit a"
  then have "a - 48 < 10" "a = 48 + (a - 48)" by (auto simp: isDigit_def)
  then show ?thesis by blast
qed

lemma div10_step: "(10 * x + r) div 10 = x" "(10 * x + r) mod 10 = r" if "r < 10" for x r :: nat
  using that by simp_all

lemma D2_Number: "isDigit a \<Longrightarrow> isDigit b \<Longrightarrow> D2 (Number [a, b]) = [a, b]"
proof -
  assume d: "isDigit a" "isDigit b"
  from digit_cases [OF d(1)] obtain a' where "a' < 10" "a = 48 + a'" by blast
  moreover from digit_cases [OF d(2)] obtain b' where "b' < 10" "b = 48 + b'" by blast
  ultimately show ?thesis
    by (simp add: D2_def div10_step)
qed

lemma D4_Number:
  assumes "isDigit a" "isDigit b" "isDigit c" "isDigit e"
  shows "D4 (Number [a, b, c, e]) = [a, b, c, e]"
proof -
  from digit_cases [OF assms(1)] obtain a' where a: "a' < 10" "a = 48 + a'" by blast
  from digit_cases [OF assms(2)] obtain b' where b: "b' < 10" "b = 48 + b'" by blast
  from digit_cases [OF assms(3)] obtain c' where c: "c' < 10" "c = 48 + c'" by blast
  from digit_cases [OF assms(4)] obtain e' where e: "e' < 10" "e = 48 + e'" by blast
  have N: "Number [48 + a', 48 + b', 48 + c', 48 + e'] = 10 * (10 * (10 * a' + b') + c') + e'"
    by (simp add: Number_4)
  have "D4 (10 * (10 * (10 * a' + b') + c') + e') = [48 + a', 48 + b', 48 + c', 48 + e']"
    unfolding D4_def
    by (simp only: div10_step [OF e(1)] div10_step [OF c(1)] div10_step [OF b(1)])
  then show ?thesis
    unfolding a(2) b(2) c(2) e(2) N .
qed

lemma Number_2_less: "isDigit a \<Longrightarrow> isDigit b \<Longrightarrow> Number [a, b] < 100"
  by (auto simp: isDigit_def)

lemma Number_4_less:
  "isDigit a \<Longrightarrow> isDigit b \<Longrightarrow> isDigit c \<Longrightarrow> isDigit e \<Longrightarrow> Number [a, b, c, e] < 10000"
  by (auto simp: isDigit_def Number_4)

lemma length_4E: "length xs = 4 \<Longrightarrow> \<exists>a b c e. xs = [a, b, c, e]"
  by (auto simp: length_Suc_conv eval_nat_numeral)

lemma length_2E: "length xs = 2 \<Longrightarrow> \<exists>a b. xs = [a, b]"
  by (auto simp: length_Suc_conv eval_nat_numeral)

lemma parseYMD_parts:
  assumes "parseYMD s = Some (y, m, d)"
  shows "\<exists>Y M D. s = Y @ [45] @ M @ [45] @ D \<and> length Y = 4 \<and> length M = 2 \<and> length D = 2 \<and>
           list_all isDigit Y \<and> list_all isDigit M \<and> list_all isDigit D \<and>
           y = int (Number Y) \<and> m = Number M \<and> d = Number D"
proof -
  let ?Y = "take 4 s" and ?M = "take 2 (drop 5 s)" and ?D = "drop 8 s"
  from assms have h: "length s = 10" "list_all isDigit ?Y" "s ! 4 = 45" "list_all isDigit ?M"
    "s ! 7 = 45" "list_all isDigit ?D" "y = int (Number ?Y)" "m = Number ?M" "d = Number ?D"
    by (auto simp: parseYMD_def split: if_splits)
  have a: "s = ?Y @ s ! 4 # drop 5 s"
    using h(1) id_take_nth_drop [of 4 s] by simp
  have b: "drop 5 s = ?M @ drop 5 s ! 2 # drop 3 (drop 5 s)"
    using h(1) id_take_nth_drop [of 2 "drop 5 s"] by simp
  have c: "drop 5 s ! 2 = s ! 7" "drop 3 (drop 5 s) = ?D"
    using h(1) by simp_all
  have "s = ?Y @ [45] @ ?M @ [45] @ ?D"
    using a b c h(3,5) by simp
  moreover have "length ?Y = 4" "length ?M = 2" "length ?D = 2"
    using h(1) by simp_all
  ultimately show ?thesis using h by blast
qed

lemma parseYMD_is_toISODate:
  assumes "parseYMD s = Some (y, m, d)" and "1000 \<le> y"
  shows "s = toISODate y m d \<and> y < 10000 \<and> m < 100 \<and> d < 100"
proof -
  from parseYMD_parts [OF assms(1)] obtain Y M D where
    s: "s = Y @ [45] @ M @ [45] @ D" and l: "length Y = 4" "length M = 2" "length D = 2"
    and dg: "list_all isDigit Y" "list_all isDigit M" "list_all isDigit D"
    and v: "y = int (Number Y)" "m = Number M" "d = Number D"
    by blast
  from l(1) obtain a b c e where Y: "Y = [a, b, c, e]" using length_4E by blast
  from l(2) obtain f g where M: "M = [f, g]" using length_2E by blast
  from l(3) obtain h i where D: "D = [h, i]" using length_2E by blast
  from dg Y M D have b: "Number Y < 10000" "Number M < 100" "Number D < 100"
    by (simp_all add: Number_4_less Number_2_less del: Number_2)
  from dg Y M D have r: "D4 (Number Y) = Y" "D2 (Number M) = M" "D2 (Number D) = D"
    by (simp_all add: D4_Number D2_Number del: Number_2)
  from b v assms(2) have "toISODate y m d = D4 (nat y) @ [45] @ D2 m @ [45] @ D2 d"
    by (intro toISODate_plain) simp_all
  with r v s b show ?thesis by simp
qed

section \<open>Order of date strings\<close>

lemma less_append: "a < a' \<Longrightarrow> length a = length a' \<Longrightarrow> a @ b < a' @ b'" for a :: "nat list"
  unfolding list_less_def by (rule lexord_sufI) simp_all

lemma le_append_same: "b \<le> b' \<Longrightarrow> a @ b \<le> a @ b'" for a :: "nat list"
  unfolding list_le_def list_less_def by (auto intro: lexord_append_leftI)

lemma div10_less:
  "x < y \<Longrightarrow> x div 10 < y div 10 \<or> (x div 10 = y div 10 \<and> x mod 10 < y mod 10)" for x y :: nat
proof -
  define qx rx qy ry where "qx = x div 10" and "rx = x mod 10" and "qy = y div 10"
    and "ry = y mod 10"
  have x: "x = 10 * qx + rx" "rx < 10" and y: "y = 10 * qy + ry" "ry < 10"
    by (simp_all add: qx_def rx_def qy_def ry_def)
  assume "x < y"
  with x y have "qx < qy \<or> (qx = qy \<and> rx < ry)"
    by linarith
  then show ?thesis
    unfolding qx_def rx_def qy_def ry_def .
qed

lemma D2_mono: "x < y \<Longrightarrow> D2 x < D2 y"
  using div10_less [of x y] by (auto simp: D2_def)

lemma D4_mono: "x < y \<Longrightarrow> D4 x < D4 y"
  using div10_less [of x y] div10_less [of "x div 10" "y div 10"]
    div10_less [of "x div 10 div 10" "y div 10 div 10"]
  by (auto simp: D4_def)

lemma toISODate_mono:
  assumes "civil_le (y, m, d) (y', m', d')"
    and "1000 \<le> y" "y < 10000" "m < 100" "d < 100"
    and "1000 \<le> y'" "y' < 10000" "m' < 100" "d' < 100"
  shows "toISODate y m d \<le> toISODate y' m' d'"
proof -
  have s: "toISODate y m d = D4 (nat y) @ [45] @ D2 m @ [45] @ D2 d"
    "toISODate y' m' d' = D4 (nat y') @ [45] @ D2 m' @ [45] @ D2 d'"
    using assms by (simp_all add: toISODate_plain)
  have l: "length (D4 a) = length (D4 b)" "length (D2 a) = length (D2 b)" for a b
    by (simp_all add: D4_def D2_def)
  consider "y < y'" | "y = y'" "m < m'" | "y = y'" "m = m'" "d < d'" | "y = y'" "m = m'" "d = d'"
    using assms(1) by (auto simp: le_less)
  then show ?thesis
  proof cases
    case 1
    with assms have "D4 (nat y) < D4 (nat y')" by (intro D4_mono) simp
    then have "toISODate y m d < toISODate y' m' d'"
      unfolding s by (rule less_append) (rule l)
    then show ?thesis by simp
  next
    case 2
    then have "D2 m < D2 m'" by (intro D2_mono)
    then have "D2 m @ [45] @ D2 d < D2 m' @ [45] @ D2 d'"
      by (rule less_append) (rule l)
    then have "D2 m @ [45] @ D2 d \<le> D2 m' @ [45] @ D2 d'" by simp
    then have "(D4 (nat y) @ [45]) @ D2 m @ [45] @ D2 d \<le> (D4 (nat y) @ [45]) @ D2 m' @ [45] @ D2 d'"
      by (rule le_append_same)
    with 2 show ?thesis unfolding s by simp
  next
    case 3
    then have "D2 d \<le> D2 d'" using D2_mono [of d d'] by simp
    then have "(D4 (nat y) @ [45] @ D2 m @ [45]) @ D2 d \<le> (D4 (nat y) @ [45] @ D2 m @ [45]) @ D2 d'"
      by (rule le_append_same)
    with 3 show ?thesis unfolding s by simp
  next
    case 4
    then show ?thesis by simp
  qed
qed

lemma addDays_back: "k \<le> 0 \<Longrightarrow> addDays t k = (prevDay ^^ nat (- k)) t"
  by (cases "k = 0") (simp_all add: addDays_def)

lemma getDay_less: "getDay t < 7"
  by (simp add: getDay_def)

lemma div_bounds:
  fixes a n :: int
  assumes "0 < n"
  shows "n * (a div n) \<le> a" and "a < n * (a div n) + n"
proof -
  define q r where "q = a div n" and "r = a mod n"
  have e: "n * q + r = a" by (simp add: q_def r_def)
  have r: "0 \<le> r" "r < n" using assms by (simp_all add: r_def)
  from e r have "n * q \<le> a" by linarith
  then show "n * (a div n) \<le> a" by (simp only: q_def)
  from e r have "a < n * q + n" by linarith
  then show "a < n * (a div n) + n" by (simp only: q_def)
qed

lemma DayFromYear_range:
  assumes "999 \<le> y" and "y < 10000"
  shows "- 400000 < DayFromYear y" and "DayFromYear y < 3000000"
proof -
  define A B C where "A = (y - 1969) div 4" and "B = (y - 1901) div 100"
    and "C = (y - 1601) div 400"
  have A: "4 * A \<le> y - 1969" "y - 1969 < 4 * A + 4"
    unfolding A_def by (rule div_bounds, simp)+
  have B: "100 * B \<le> y - 1901" "y - 1901 < 100 * B + 100"
    unfolding B_def by (rule div_bounds, simp)+
  have C: "400 * C \<le> y - 1601" "y - 1601 < 400 * C + 400"
    unfolding C_def by (rule div_bounds, simp)+
  have D: "DayFromYear y = 365 * (y - 1970) + A - B + C"
    by (simp only: DayFromYear_def A_def B_def C_def)
  have e: "365 * (y - 1970) = 365 * y - 719050"
    by (simp add: right_diff_distrib)
  from assms A B C show "- 400000 < DayFromYear y"
    unfolding D e by linarith
  from assms A B C show "DayFromYear y < 3000000"
    unfolding D e by linarith
qed

lemma daysBeforeMonth_le: "daysBeforeMonth y m \<le> 31 * m"
proof (induction m)
  case 0
  then show ?case by (simp add: daysBeforeMonth_def)
next
  case (Suc k)
  show ?case
  proof (cases "1 \<le> k")
    case True
    from daysBeforeMonth_Suc [OF True, of y] Suc daysInMonth_bounds(2) [of y k]
    show ?thesis by simp
  next
    case False
    then have "k = 0" by simp
    then show ?thesis by simp
  qed
qed

lemma timeClip_plain:
  assumes "validCivil (y, m, d)" and "999 \<le> y" and "y < 10000"
  shows "timeClip h (y, m, d) = Some (y, m, d)"
proof -
  from assms(1) have md: "m \<le> 12" "1 \<le> d" "d \<le> 31"
    using daysInMonth_bounds(2) [of y m] by simp_all
  from daysBeforeMonth_le [of y m] md have "daysBeforeMonth y m \<le> 372" by simp
  with md DayFromYear_range [OF assms(2,3)]
  have "- maxDay < dayNumber (y, m, d)" and "dayNumber (y, m, d) < maxDay"
    by (simp_all add: maxDay_def)
  then show ?thesis by (simp add: timeClip_def)
qed

lemma mondayOf_calendarDate:
  assumes c: "calendarDate k" and y: "1001 \<le> yearOf k"
  shows "isMonday (mondayOf h k) \<and> mondayOf h k \<le> k \<and>
         (\<exists>n. daysFrom (mondayOf h k) k = Some n \<and> 0 \<le> n \<and> n \<le> 6)"
proof -
  from c obtain t where p: "parseYMD k = Some t" and v: "validCivil t"
    by (auto simp: calendarDate_def split: option.splits)
  obtain yy m d where t: "t = (yy, m, d)" by (cases t)
  from y p t have yy: "1001 \<le> yy" by (simp add: yearOf_def)
  from parseYMD_is_toISODate [of k yy m d] p t yy
  have k: "k = toISODate yy m d" and b: "yy < 10000" "m < 100" "d < 100" by simp_all
  from v t have vm: "1 \<le> m" "m \<le> 12" "1 \<le> d" "d \<le> daysInMonth yy m" by simp_all
  from vm daysInMonth_bounds(2) [of yy m] have "d \<le> 31" by simp
  moreover from v t yy b(1) have "timeClip h (yy, m, d) = Some (yy, m, d)"
    by (intro timeClip_plain) simp_all
  ultimately have nd: "newDate h k = Some t"
    using p t vm by (simp add: newDate_def fromFields_def)
  define diff where "diff = (if getDay t = 0 then - 6 else 1 - int (getDay t))"
  define j where "j = nat (- diff)"
  define t' where "t' = (prevDay ^^ j) t"
  have diff: "diff \<le> 0" "- 6 \<le> diff"
    using getDay_less [of t] by (auto simp: diff_def)
  then have j: "j \<le> 6" "int j = - diff" by (simp_all add: j_def)
  have a: "addDays t diff = t'"
    using diff(1) by (simp add: addDays_back t'_def j_def)
  from dayNumber_back [OF v, of j] j
  have v': "validCivil t'" and n': "dayNumber t' = dayNumber t + diff"
    by (simp_all add: t'_def)
  obtain y' m' d' where t': "t' = (y', m', d')" by (cases t')
  from v' t' daysInMonth_bounds(2) [of y' m'] have b': "m' < 100" "d' < 100" by simp_all
  have le: "civil_le t' t"
    unfolding t'_def by (rule civil_le_back)
  with t t' have "y' \<le> yy" by auto
  moreover from year_back_ge [OF v j(1)] t t' have "yy - 1 \<le> y'" by (simp add: t'_def)
  ultimately have yb: "1000 \<le> y'" "y' < 10000" using yy b(1) by simp_all
  from v' t' yb have "timeClip h t' = Some (y', m', d')"
    by (simp only: t') (intro timeClip_plain, simp_all)
  then have m: "mondayOf h k = toISODate y' m' d'"
    using a by (simp add: mondayOf_def nd diff_def Let_def)
  have pm: "parseYMD (mondayOf h k) = Some t'"
    unfolding m t' using yb b' by (rule parseYMD_toISODate)
  have "(dayNumber t + diff + 4) mod 7 = 1"
    unfolding diff_def getDay_def by (rule monday_arith)
  then have "getDay t' = 1"
    by (simp only: getDay_def n')
  with pm v' have 1: "isMonday (mondayOf h k)" by (simp add: isMonday_def)
  note m
  also have "toISODate y' m' d' \<le> toISODate yy m d"
    using le t t' yb b b' yy by (intro toISODate_mono) simp_all
  also have "\<dots> = k" by (rule k [symmetric])
  finally have 2: "mondayOf h k \<le> k" .
  have "daysFrom (mondayOf h k) k = Some (- diff)"
    by (simp add: daysFrom_def pm p n')
  with diff have 3: "\<exists>n. daysFrom (mondayOf h k) k = Some n \<and> 0 \<le> n \<and> n \<le> 6" by simp
  from 1 2 3 show ?thesis by blast
qed

section \<open>Row loop and week key\<close>

lemma andThen_Inr: "andThen r f = Inr v \<longleftrightarrow> (\<exists>u. r = Inr u \<and> f u = Inr v)"
  by (cases r) (simp_all add: andThen_def)

lemma andThen_simps [simp]: "andThen (Inr u) f = f u" "andThen (Inl e) f = Inl e"
  by (simp_all add: andThen_def)

lemma dateAnchors_simps [simp]:
  "dateAnchors n b [] = []"
  "dateAnchors n b (row # rows) =
     (case normalizeDateCell n (cellAt row 0) b of Inr (Some date) \<Rightarrow> [date] | _ \<Rightarrow> [])
       @ dateAnchors n b rows"
  by (simp_all add: dateAnchors_def)

lemma map_of_keys: "map_of al k = Some v \<Longrightarrow> k \<in> fst ` set al"
  by (metis map_of_SomeD fst_conv image_eqI)

lemma rowStep_dates:
  assumes "rowStep n b cols st row = Inr st'"
  shows "allDates st' = allDates st @ dateAnchors n b [row] \<and>
         fst ` set (daysAcc st') = fst ` set (daysAcc st) \<union> set (dateAnchors n b [row])"
proof -
  from assms obtain r where r: "normalizeDateCell n (cellAt row 0) b = Inr r"
    by (auto simp: rowStep_def andThen_Inr)
  show ?thesis
  proof (cases r)
    case (Some date)
    with assms r have s: "st' = st\<lparr>currentDate := Some date, allDates := allDates st @ [date],
        daysAcc := (if map_of (daysAcc st) date = None
                    then daysAcc st @ [(date, emptyDay)] else daysAcc st)\<rparr>"
      by (simp add: rowStep_def)
    show ?thesis
    proof (cases "map_of (daysAcc st) date = None")
      case True
      with s r Some show ?thesis by simp
    next
      case False
      then obtain v where "map_of (daysAcc st) date = Some v" by blast
      then have "date \<in> fst ` set (daysAcc st)" by (rule map_of_keys)
      with False s r Some show ?thesis by auto
    qed
  next
    case None
    show ?thesis
    proof (cases "currentDate st")
      case n: None
      with assms r None show ?thesis by (simp add: rowStep_def)
    next
      case (Some cur)
      with assms r None obtain day0 day4 where d: "map_of (daysAcc st) cur = Some day0"
        and s: "st' = st\<lparr>daysAcc := AList.update cur day4 (daysAcc st)\<rparr>"
        by (auto simp: rowStep_def andThen_Inr split: option.splits)
      from d have "cur \<in> fst ` set (daysAcc st)" by (rule map_of_keys)
      with s r None show ?thesis by (auto simp: dom_update)
    qed
  qed
qed

lemma rowsLoop_dates:
  "rowsLoop n b cols rows st = Inr st' \<Longrightarrow>
     allDates st' = allDates st @ dateAnchors n b rows \<and>
     fst ` set (daysAcc st') = fst ` set (daysAcc st) \<union> set (dateAnchors n b rows)"
proof (induction rows arbitrary: st)
  case Nil
  then show ?case by simp
next
  case (Cons row rows)
  from Cons.prems obtain st1 where 1: "rowStep n b cols st row = Inr st1"
    and 2: "rowsLoop n b cols rows st1 = Inr st'"
    by (auto simp: andThen_Inr)
  from rowStep_dates [OF 1] Cons.IH [OF 2] show ?case
    by (simp add: Un_assoc)
qed

lemma set_firstOccurrences [simp]: "set (firstOccurrences xs) = set xs"
proof -
  have "set (foldl (\<lambda>acc x. if x \<in> set acc then acc else acc @ [x]) acc xs) = set acc \<union> set xs"
    for acc :: "jsstring list"
    by (induction xs arbitrary: acc) auto
  then show ?thesis by (simp add: firstOccurrences_def)
qed

lemma hd_sort_Min: "ys \<noteq> [] \<Longrightarrow> hd (sort ys) = Min (set ys)" for ys :: "jsstring list"
proof -
  assume ne: "ys \<noteq> []"
  then have "sort ys \<noteq> []" by (metis length_0_conv length_sort)
  then obtain z zs where z: "sort ys = z # zs" by (cases "sort ys") auto
  have "sorted (sort ys)" and "set (sort ys) = set ys" by simp_all
  then have "sorted (z # zs)" and s: "set (z # zs) = set ys"
    unfolding z by simp_all
  then have "\<forall>y\<in>set ys. z \<le> y" by auto
  moreover from s have "z \<in> set ys" by auto
  ultimately have "Min (set ys) = z" by (intro Min_eqI) auto
  with z show ?thesis by simp
qed

lemma weekStartOf_Min:
  "weekStartOf h xs = (if xs = [] then None else Some (mondayOf h (Min (set xs))))"
proof (cases "xs = []")
  case True
  then show ?thesis by (simp add: weekStartOf_def firstOccurrences_def)
next
  case False
  then have "set (firstOccurrences xs) \<noteq> {}" by simp
  then have ne: "firstOccurrences xs \<noteq> []" by (simp del: set_firstOccurrences)
  then have "sort (firstOccurrences xs) \<noteq> []" by (metis length_0_conv length_sort)
  with False hd_sort_Min [OF ne] show ?thesis
    by (simp add: weekStartOf_def Let_def)
qed

lemma parse_dates:
  assumes "parseMealExcel h n (Inr wb) fn s = Inr doc"
  defines "anchors \<equiv> dateAnchors n (map_option hint_y (parseBaseDateFromFilename fn)) (rowsOf wb)"
  shows "fst ` set (days doc) = set anchors" and "weekStart doc = weekStartOf h anchors"
proof -
  from assms(1) obtain cols st where
    l: "rowsLoop n (map_option hint_y (parseBaseDateFromFilename fn)) cols (rowsOf wb) initialState
          = Inr st"
    and d: "doc = \<lparr>site = s, source_filename = fn, source_sheet = sheetNameOf wb,
                weekStart = weekStartOf h (allDates st),
                days = map (\<lambda>(d, day). (d, finishDay day)) (daysAcc st)\<rparr>"
    by (auto simp: parseMealExcel_def andThen_Inr Let_def)
  from rowsLoop_dates [OF l] have a: "allDates st = anchors"
    and k: "fst ` set (daysAcc st) = set anchors"
    by (simp_all add: initialState_def anchors_def)
  have "fst ` set (map (\<lambda>(d, day). (d, finishDay day)) (daysAcc st)) = fst ` set (daysAcc st)"
    by (force simp: image_iff)
  with k d show "fst ` set (days doc) = set anchors" by simp
  from a d show "weekStart doc = weekStartOf h anchors" by simp
qed

lemma addDays_eval:
  "addDays t 0 = t"
  "k < 0 \<Longrightarrow> addDays t k = addDays (prevDay t) (k + 1)"
proof -
  show "addDays t 0 = t" by (simp add: addDays_def)
  assume k: "k < 0"
  then obtain j where j: "nat (- k) = Suc j" "nat (- (k + 1)) = j"
    by (cases "nat (- k)") auto
  show "addDays t k = addDays (prevDay t) (k + 1)"
  proof (cases "k + 1 < 0")
    case True
    with k j show ?thesis by (simp add: addDays_def funpow_swap1)
  next
    case False
    with k have "k = - 1" by simp
    then show ?thesis by (simp add: addDays_def)
  qed
qed

lemma daysBeforeMonth_eval:
  "daysBeforeMonth y m = (if m \<le> 1 then 0 else daysBeforeMonth y (m - 1) + daysInMonth y (m - 1))"
proof (cases "m \<le> 1")
  case True
  then show ?thesis by (simp add: daysBeforeMonth_def)
next
  case False
  then obtain k where "m = Suc k" "1 \<le> k" by (cases m) auto
  with daysBeforeMonth_Suc [of k y] show ?thesis by simp
qed

lemmas eval_monday =
  mondayOf_def newDate_def fromFields_def timeClip_def maxDay_def parseYMD_def getDay_def
  DayFromYear_def daysBeforeMonth_eval
  daysInMonth_def leapYear_def addDays_eval toISODate_def String_int_def String_nat.simps
  padStart_def isDigit_def Number_def js_def


text \<open>Unfolding sets for closed terms.\<close>

lemmas eval_strings =
  js_def isSpace_def trim_def isDigit_def Number_def String_nat.simps String_int_def padStart_def
  takeDigits_def

lemmas eval_cells =
  toISODate_def md_tail_def md_with_def md_at_def iso_day_def iso_month_def iso_at_def
  dateBranch_def numberBranch_def textBranch_def normalizeDateCell_def

lemmas eval_menu =
  kw_breakfast_def kw_lunch_def kw_dinner_def kw_night_def kw_salad_def kw_corner_def
  isHeaderLabel_def splitMenuItems_def categories_def addCol_def scanCell_def pick_def
  detectHeaderColumns_def defaultColumnsForSite_def mealCols_def columnsFor_def

lemmas eval_rows =
  cellAt_def addTo_def emptyDay_def rowStep_def initialState_def dedupe_def finishDay_def

lemmas eval_parse =
  sheet_posted_def sheetNameOf_def rowsOf_def parseMealExcel_def parseBaseDateFromFilename_def
  basename_def sixDigits_def firstOccurrences_def weekStartOf_def


section \<open>Week start (C2)\<close>

text \<open>
  C2 (as stated) fails: a sheet whose only date cell reads \<open>13/45\<close> has the date key
  \<open>2026-13-45\<close>; \<open>mondayOf\<close> makes an invalid \<open>Date\<close> of it, and the week start
  \<open>NaN-NaN-NaN\<close> is not a Monday and is not below the key.
\<close>

theorem C2_counterexample_bad_anchor:
  "parseMealExcel strictHost 2026
     (Inr \<lparr>SheetNames = [js ''Sheet1''],
           Sheets = [(js ''Sheet1'', [[CString (js ''13/45'')]])]\<rparr>)
     (js ''260112.xlsx'') (js ''main'') =
   Inr \<lparr>site = js ''main'', source_filename = js ''260112.xlsx'',
        source_sheet = Some (js ''Sheet1''), weekStart = Some (js ''NaN-NaN-NaN''),
        days = [(js ''2026-13-45'',
                 \<lparr>breakfast = [], lunch = [], dinner = [], extras = None\<rparr>)]\<rparr> \<and>
   \<not> isMonday (js ''NaN-NaN-NaN'') \<and> \<not> js ''NaN-NaN-NaN'' \<le> js ''2026-13-45''"
  by (simp add: eval_strings eval_cells eval_menu eval_rows eval_parse mondayOf_def newDate_def
      fromFields_def parseYMD_def isMonday_def)

text \<open>
  C2 (amended).  For every parse result: if no row produced a date anchor, \<open>weekStart\<close> is
  nothing-found and \<open>days\<close> is empty.  Otherwise the date keys of \<open>days\<close> are the anchors
  and \<open>weekStart\<close> is \<open>mondayOf\<close> of the lexicographically least key; when that key is a
  date of the calendar with a four-digit year from 1001 on, \<open>weekStart\<close> is a Monday, is
  lexicographically below or equal to every date key, and lies at most 6 days before the
  least key.
\<close>

theorem C2_week_start:
  assumes "parseMealExcel h thisYear (Inr wb) filename siteId = Inr doc"
  defines "anchors \<equiv>
    dateAnchors thisYear (map_option hint_y (parseBaseDateFromFilename filename)) (rowsOf wb)"
  shows "(anchors = [] \<longrightarrow> weekStart doc = None \<and> days doc = []) \<and>
    (anchors \<noteq> [] \<longrightarrow>
       fst ` set (days doc) = set anchors \<and>
       weekStart doc = Some (mondayOf h (Min (set anchors))) \<and>
       (calendarDate (Min (set anchors)) \<and> 1001 \<le> yearOf (Min (set anchors)) \<longrightarrow>
          isMonday (mondayOf h (Min (set anchors))) \<and>
          (\<forall>k\<in>set anchors. mondayOf h (Min (set anchors)) \<le> k) \<and>
          (\<exists>n. daysFrom (mondayOf h (Min (set anchors))) (Min (set anchors)) = Some n \<and>
               0 \<le> n \<and> n \<le> 6)))"
proof (intro conjI impI)
  note d = parse_dates [OF assms(1), folded anchors_def]
  {
    assume "anchors = []"
    with d show "weekStart doc = None" by (simp add: weekStartOf_Min)
    from \<open>anchors = []\<close> d(1) show "days doc = []" by simp
  }
  assume ne: "anchors \<noteq> []"
  from d(1) show "fst ` set (days doc) = set anchors" .
  from ne d(2) show "weekStart doc = Some (mondayOf h (Min (set anchors)))"
    by (simp add: weekStartOf_Min)
  assume "calendarDate (Min (set anchors)) \<and> 1001 \<le> yearOf (Min (set anchors))"
  then have m: "isMonday (mondayOf h (Min (set anchors))) \<and>
      mondayOf h (Min (set anchors)) \<le> Min (set anchors) \<and>
      (\<exists>n. daysFrom (mondayOf h (Min (set anchors))) (Min (set anchors)) = Some n \<and>
           0 \<le> n \<and> n \<le> 6)"
    by (intro mondayOf_calendarDate) simp_all
  then show "isMonday (mondayOf h (Min (set anchors)))" by simp
  from m show "\<exists>n. daysFrom (mondayOf h (Min (set anchors))) (Min (set anchors)) = Some n \<and>
           0 \<le> n \<and> n \<le> 6" by simp
  show "\<forall>k\<in>set anchors. mondayOf h (Min (set anchors)) \<le> k"
  proof
    fix k assume "k \<in> set anchors"
    then have "Min (set anchors) \<le> k" by simp
    with m show "mondayOf h (Min (set anchors)) \<le> k" by (auto intro: order_trans)
  qed
qed

theorem C2_week_start_witness:
  "parseMealExcel strictHost 2026
     (Inr \<lparr>SheetNames = [js ''Sheet1''],
           Sheets = [(js ''Sheet1'',
             [[CString (js ''menu'')], [CString (js ''1/15 (x)'')], [CNull, CString (js ''rice'')],
              [CString (js ''1/13'')]])]\<rparr>)
     (js ''260112.xlsx'') (js ''main'') =
   Inr \<lparr>site = js ''main'', source_filename = js ''260112.xlsx'',
        source_sheet = Some (js ''Sheet1''), weekStart = Some (js ''2026-01-12''),
        days = [(js ''2026-01-15'',
                 \<lparr>breakfast = [js ''rice''], lunch = [], dinner = [], extras = None\<rparr>),
                (js ''2026-01-13'',
                 \<lparr>breakfast = [], lunch = [], dinner = [], extras = None\<rparr>)]\<rparr> \<and>
   isMonday (js ''2026-01-12'') \<and>
   js ''2026-01-12'' \<le> js ''2026-01-15'' \<and> js ''2026-01-12'' \<le> js ''2026-01-13'' \<and>
   (\<exists>n. daysFrom (js ''2026-01-12'') (js ''2026-01-13'') = Some n \<and> 0 \<le> n \<and> n \<le> 6)"
proof -
  let ?wb = "\<lparr>SheetNames = [js ''Sheet1''],
           Sheets = [(js ''Sheet1'',
             [[CString (js ''menu'')], [CString (js ''1/15 (x)'')], [CNull, CString (js ''rice'')],
              [CString (js ''1/13'')]])]\<rparr>"
  let ?doc = "\<lparr>site = js ''main'', source_filename = js ''260112.xlsx'',
        source_sheet = Some (js ''Sheet1''), weekStart = Some (js ''2026-01-12''),
        days = [(js ''2026-01-15'',
                 \<lparr>breakfast = [js ''rice''], lunch = [], dinner = [], extras = None\<rparr>),
                (js ''2026-01-13'',
                 \<lparr>breakfast = [], lunch = [], dinner = [], extras = None\<rparr>)]\<rparr>"
  have mo: "mondayOf strictHost (js ''2026-01-13'') = js ''2026-01-12''"
    by (simp add: eval_monday)
  have mo': "mondayOf strictHost [50, 48, 50, 54, 45, 48, 49, 45, 49, 51] =
      [50, 48, 50, 54, 45, 48, 49, 45, 49, 50]"
    using mo by (simp add: js_def)
  have hint: "map_option hint_y (parseBaseDateFromFilename (js ''260112.xlsx'')) = Some 2026"
    by (simp add: eval_filename)
  have p: "parseMealExcel strictHost 2026 (Inr ?wb) (js ''260112.xlsx'') (js ''main'') = Inr ?doc"
    by (simp add: eval_strings eval_cells eval_menu eval_rows eval_parse mo')
  have a: "dateAnchors 2026 (Some 2026) (rowsOf ?wb) = [js ''2026-01-15'', js ''2026-01-13'']"
    by (simp add: eval_strings eval_cells eval_menu eval_rows eval_parse)
  have mn: "Min (set [js ''2026-01-15'', js ''2026-01-13'']) = js ''2026-01-13''"
    by (simp add: js_def)
  have c: "calendarDate (js ''2026-01-13'')" "1001 \<le> yearOf (js ''2026-01-13'')"
    by (simp_all add: calendarDate_def yearOf_def validCivil_def eval_monday)
  from C2_week_start [OF p] c have "isMonday (js ''2026-01-12'') \<and>
      (\<forall>k\<in>set [js ''2026-01-15'', js ''2026-01-13'']. js ''2026-01-12'' \<le> k) \<and>
      (\<exists>n. daysFrom (js ''2026-01-12'') (js ''2026-01-13'') = Some n \<and> 0 \<le> n \<and> n \<le> 6)"
    unfolding hint a mn mo by simp
  with p show ?thesis by simp
qed

section \<open>What the parser can raise (C1)\<close>

text \<open>
  C1 fails on the code: a cell that holds an invalid \<open>Date\<close> (its time value is NaN) is
  turned away by the first test of \<open>normalizeDateCell\<close>, is not a number, and reaches
  \<open>safeText\<close>, whose \<open>toISOString\<close> raises a RangeError.  The same happens in
  \<open>splitMenuItems\<close>, and the error leaves \<open>parseMealExcel\<close> although the container was
  read.
\<close>

theorem C1_invalid_date_raises:
  "normalizeDateCell 2026 (CDate InvalidDate) (Some 2026) = Inl RangeError \<and>
   splitMenuItems (CDate InvalidDate) = Inl RangeError \<and>
   parseMealExcel strictHost 2026
     (Inr \<lparr>SheetNames = [js ''Sheet1''],
           Sheets = [(js ''Sheet1'', [[CString (js ''1/12'')], [CDate InvalidDate]])]\<rparr>)
     (js ''260112.xlsx'') (js ''main'') = Inl RangeError"
  by (simp add: eval_strings eval_cells eval_menu eval_rows eval_parse)

section \<open>The days of a document (C5)\<close>

lemma finishDay_clean:
  "clean (breakfast (finishDay day)) \<and> clean (lunch (finishDay day)) \<and>
   clean (dinner (finishDay day)) \<and>
   (case extras (finishDay day) of
      None \<Rightarrow> True
    | Some ex \<Rightarrow> ex \<noteq> [] \<and> (\<forall>(k, v)\<in>set ex. v \<noteq> [] \<and> clean v))"
  by (auto simp: finishDay_def Let_def dedupe_clean)

lemma finishDay_extras_None:
  "extras (finishDay day) = None \<longleftrightarrow>
     (\<forall>(k, v)\<in>set (case extras day of None \<Rightarrow> [] | Some e \<Rightarrow> e). dedupe v = [])"
  by (auto simp: finishDay_def Let_def filter_empty_conv)

lemma parse_result:
  assumes "parseMealExcel h n rd fn s = Inr doc"
  shows "\<exists>wb cols st. rd = Inr wb \<and> columnsFor (rowsOf wb) s = Inr cols \<and>
    rowsLoop n (map_option hint_y (parseBaseDateFromFilename fn)) cols (rowsOf wb)
           initialState = Inr st \<and>
    doc = \<lparr>site = s, source_filename = fn, source_sheet = sheetNameOf wb,
                weekStart = weekStartOf h (allDates st),
                days = map (\<lambda>(d, day). (d, finishDay day)) (daysAcc st)\<rparr>"
  using assms by (auto simp: parseMealExcel_def andThen_Inr Let_def)

text \<open>
  C5.  In every document that \<open>parseMealExcel\<close> returns, the breakfast, lunch and dinner
  sequences and every extras sequence of every day hold no string twice, no empty string
  and only trimmed strings; \<open>extras\<close>, when present, is not empty and has no key with an
  empty sequence, and it is absent exactly when no label of the accumulated day keeps an
  item.
\<close>

theorem C5_day_invariant:
  assumes "parseMealExcel h thisYear readFile filename siteId = Inr doc"
    and "(date, day) \<in> set (days doc)"
  shows "clean (breakfast day) \<and> clean (lunch day) \<and> clean (dinner day) \<and>
    (case extras day of
       None \<Rightarrow> True
     | Some ex \<Rightarrow> ex \<noteq> [] \<and> (\<forall>(k, v)\<in>set ex. v \<noteq> [] \<and> clean v)) \<and>
    (\<exists>acc. day = finishDay acc \<and>
       (extras day = None \<longleftrightarrow>
          (\<forall>(k, v)\<in>set (case extras acc of None \<Rightarrow> [] | Some e \<Rightarrow> e). dedupe v = [])))"
proof -
  from parse_result [OF assms(1)] obtain wb :: workbook and st :: pstate where
    "doc = \<lparr>site = siteId, source_filename = filename, source_sheet = sheetNameOf wb,
                weekStart = weekStartOf h (allDates st),
                days = map (\<lambda>(d, day). (d, finishDay day)) (daysAcc st)\<rparr>"
    by blast
  then have "days doc = map (\<lambda>(d, day). (d, finishDay day)) (daysAcc st)"
    by simp
  with assms(2) have "day \<in> finishDay ` snd ` set (daysAcc st)"
    by (force simp: image_iff)
  then obtain acc where day: "day = finishDay acc"
    by blast
  have 1: "clean (breakfast day) \<and> clean (lunch day) \<and> clean (dinner day) \<and>
    (case extras day of
       None \<Rightarrow> True
     | Some ex \<Rightarrow> ex \<noteq> [] \<and> (\<forall>(k, v)\<in>set ex. v \<noteq> [] \<and> clean v))"
    unfolding day by (rule finishDay_clean)
  have "day = finishDay acc \<and>
       (extras day = None \<longleftrightarrow>
          (\<forall>(k, v)\<in>set (case extras acc of None \<Rightarrow> [] | Some e \<Rightarrow> e). dedupe v = []))"
    unfolding day using finishDay_extras_None [of acc] by (intro conjI refl)
  then have 2: "\<exists>acc. day = finishDay acc \<and>
       (extras day = None \<longleftrightarrow>
          (\<forall>(k, v)\<in>set (case extras acc of None \<Rightarrow> [] | Some e \<Rightarrow> e). dedupe v = []))"
    by (rule exI [of _ acc])
  from 1 2 show ?thesis by (intro conjI) simp_all
qed

theorem C5_day_invariant_witness:
  "parseMealExcel strictHost 2026
     (Inr \<lparr>SheetNames = [js ''Sheet1''],
           Sheets = [(js ''Sheet1'',
             [[CString (js ''1/12'')],
              [CNull, CString (js '' rice ''), CString (js ''rice''), CNull, CNull, CNull, CNull,
               CString (js ''leaf'' @ [10] @ js ''leaf''), CString kw_night],
              [CString (js ''1/13'')],
              [CNull, CString (js ''soup'')]])]\<rparr>)
     (js ''260112.xlsx'') (js ''cancer'') =
   Inr \<lparr>site = js ''cancer'', source_filename = js ''260112.xlsx'',
        source_sheet = Some (js ''Sheet1''), weekStart = Some (js ''2026-01-12''),
        days = [(js ''2026-01-12'',
                 \<lparr>breakfast = [js ''rice''], lunch = [], dinner = [],
                    extras = Some [(js ''salad'', [js ''leaf''])]\<rparr>),
                (js ''2026-01-13'',
                 \<lparr>breakfast = [js ''soup''], lunch = [], dinner = [], extras = None\<rparr>)]\<rparr> \<and>
   clean [js ''rice''] \<and> clean [js ''leaf'']"
proof -
  let ?day = "\<lparr>breakfast = [js ''rice''], lunch = [], dinner = [],
                    extras = Some [(js ''salad'', [js ''leaf''])]\<rparr>"
  let ?doc = "\<lparr>site = js ''cancer'', source_filename = js ''260112.xlsx'',
        source_sheet = Some (js ''Sheet1''), weekStart = Some (js ''2026-01-12''),
        days = [(js ''2026-01-12'', ?day),
                (js ''2026-01-13'',
                 \<lparr>breakfast = [js ''soup''], lunch = [], dinner = [], extras = None\<rparr>)]\<rparr>"
  have mo: "mondayOf strictHost (js ''2026-01-12'') = js ''2026-01-12''"
    by (simp add: eval_monday)
  have mo': "mondayOf strictHost [50, 48, 50, 54, 45, 48, 49, 45, 49, 50] =
      [50, 48, 50, 54, 45, 48, 49, 45, 49, 50]"
    using mo by (simp add: js_def)
  have p: "parseMealExcel strictHost 2026
     (Inr \<lparr>SheetNames = [js ''Sheet1''],
           Sheets = [(js ''Sheet1'',
             [[CString (js ''1/12'')],
              [CNull, CString (js '' rice ''), CString (js ''rice''), CNull, CNull, CNull, CNull,
               CString (js ''leaf'' @ [10] @ js ''leaf''), CString kw_night],
              [CString (js ''1/13'')],
              [CNull, CString (js ''soup'')]])]\<rparr>)
     (js ''260112.xlsx'') (js ''cancer'') = Inr ?doc"
    by (simp add: eval_strings eval_cells eval_menu eval_rows eval_parse mo')
  have "(js ''2026-01-12'', ?day) \<in> set (days ?doc)" by simp
  from C5_day_invariant [OF p this] have "clean [js ''rice''] \<and> clean [js ''leaf'']"
    by simp
  with p show ?thesis by simp
qed

section \<open>Column map (C7)\<close>

text \<open>
  C7.  For every grid and site id, the column map takes the detected breakfast, lunch and
  dinner columns where the detector found some and the columns of the site's template
  otherwise, category by category; the extras columns are those of the template; every
  site id other than \<open>main\<close> has the cancer template; and the parser reads the rows with
  this column map.
\<close>

theorem C7_column_map:
  "(columnsFor rows siteId = Inr cols \<longrightarrow>
      (\<exists>det. detectHeaderColumns rows = Inr det \<and>
         col_breakfast cols = (if det_breakfast det \<noteq> [] then det_breakfast det
                               else col_breakfast (defaultColumnsForSite siteId)) \<and>
         col_lunch cols = (if det_lunch det \<noteq> [] then det_lunch det
                           else col_lunch (defaultColumnsForSite siteId)) \<and>
         col_dinner cols = (if det_dinner det \<noteq> [] then det_dinner det
                            else col_dinner (defaultColumnsForSite siteId)) \<and>
         col_extras cols = col_extras (defaultColumnsForSite siteId))) \<and>
   (siteId \<noteq> js ''main'' \<longrightarrow>
      defaultColumnsForSite siteId =
        \<lparr>col_breakfast = [1, 2], col_lunch = [3, 4], col_dinner = [5, 6],
         col_extras = [(js ''salad'', [7]), (js ''night'', [8])]\<rparr>) \<and>
   (parseMealExcel h thisYear (Inr wb) filename siteId = Inr doc \<longrightarrow>
      (\<exists>cols st. columnsFor (rowsOf wb) siteId = Inr cols \<and>
         rowsLoop thisYear (map_option hint_y (parseBaseDateFromFilename filename)) cols
           (rowsOf wb) initialState = Inr st))"
proof (intro conjI impI)
  assume "columnsFor rows siteId = Inr cols"
  then obtain det where "detectHeaderColumns rows = Inr det"
    and "cols = mealCols det (defaultColumnsForSite siteId)"
    by (auto simp: columnsFor_def andThen_Inr)
  then show "\<exists>det. detectHeaderColumns rows = Inr det \<and>
         col_breakfast cols = (if det_breakfast det \<noteq> [] then det_breakfast det
                               else col_breakfast (defaultColumnsForSite siteId)) \<and>
         col_lunch cols = (if det_lunch det \<noteq> [] then det_lunch det
                           else col_lunch (defaultColumnsForSite siteId)) \<and>
         col_dinner cols = (if det_dinner det \<noteq> [] then det_dinner det
                            else col_dinner (defaultColumnsForSite siteId)) \<and>
         col_extras cols = col_extras (defaultColumnsForSite siteId)"
    by (simp add: mealCols_def)
next
  assume "siteId \<noteq> js ''main''"
  then show "defaultColumnsForSite siteId =
        \<lparr>col_breakfast = [1, 2], col_lunch = [3, 4], col_dinner = [5, 6],
         col_extras = [(js ''salad'', [7]), (js ''night'', [8])]\<rparr>"
    by (simp add: defaultColumnsForSite_def)
next
  assume "parseMealExcel h thisYear (Inr wb) filename siteId = Inr doc"
  from parse_result [OF this]
  show "\<exists>cols st. columnsFor (rowsOf wb) siteId = Inr cols \<and>
         rowsLoop thisYear (map_option hint_y (parseBaseDateFromFilename filename)) cols
           (rowsOf wb) initialState = Inr st"
    by auto
qed

theorem C7_column_map_witness:
  "columnsFor [[CNull, CNull, CString kw_lunch]] (js ''cancer'') =
     Inr \<lparr>col_breakfast = [1, 2], col_lunch = [2], col_dinner = [5, 6],
          col_extras = [(js ''salad'', [7]), (js ''night'', [8])]\<rparr> \<and>
   defaultColumnsForSite (js ''cancer'') =
     \<lparr>col_breakfast = [1, 2], col_lunch = [3, 4], col_dinner = [5, 6],
      col_extras = [(js ''salad'', [7]), (js ''night'', [8])]\<rparr> \<and>
   (\<exists>det. detectHeaderColumns [[CNull, CNull, CString kw_lunch]] = Inr det \<and>
      det_breakfast det = [] \<and> det_lunch det = [2] \<and> det_dinner det = []) \<and>
   (\<exists>cols st.
      columnsFor
        (rowsOf \<lparr>SheetNames = [js ''S''],
                  Sheets = [(js ''S'', [[CNull, CNull, CString kw_lunch]])]\<rparr>)
        (js ''cancer'') = Inr cols \<and>
      rowsLoop 2026 (map_option hint_y (parseBaseDateFromFilename (js ''menu.xlsx''))) cols
        (rowsOf \<lparr>SheetNames = [js ''S''],
                  Sheets = [(js ''S'', [[CNull, CNull, CString kw_lunch]])]\<rparr>)
        initialState = Inr st)"
proof -
  let ?rows = "[[CNull, CNull, CString kw_lunch]]"
  let ?cols = "\<lparr>col_breakfast = [1, 2], col_lunch = [2], col_dinner = [5, 6],
          col_extras = [(js ''salad'', [7]), (js ''night'', [8])]\<rparr>"
  let ?wb = "\<lparr>SheetNames = [js ''S''], Sheets = [(js ''S'', ?rows)]\<rparr>"
  let ?doc = "\<lparr>site = js ''cancer'', source_filename = js ''menu.xlsx'',
        source_sheet = Some (js ''S''), weekStart = None, days = []\<rparr>"
  have c: "columnsFor ?rows (js ''cancer'') = Inr ?cols"
    by (simp add: eval_strings eval_cells eval_menu)
  have s: "js ''cancer'' \<noteq> js ''main''"
    by (simp add: js_def)
  have p: "parseMealExcel strictHost 2026 (Inr ?wb) (js ''menu.xlsx'') (js ''cancer'') = Inr ?doc"
    by (simp add: eval_strings eval_cells eval_menu eval_rows eval_parse)
  note T = C7_column_map [of ?rows "js ''cancer''" ?cols strictHost 2026 ?wb "js ''menu.xlsx''" ?doc]
  note D = T [THEN conjunct2, THEN conjunct1, THEN mp, OF s]
  note F = T [THEN conjunct2, THEN conjunct2, THEN mp, OF p]
  from T [THEN conjunct1, THEN mp, OF c] obtain det where
    d: "detectHeaderColumns ?rows = Inr det"
    by blast
  have "detectHeaderColumns ?rows = Inr \<lparr>det_breakfast = [], det_lunch = [2],
      det_dinner = [], det_night = [], det_salad = []\<rparr>"
    by (simp add: eval_strings eval_cells eval_menu)
  with d have "det = \<lparr>det_breakfast = [], det_lunch = [2], det_dinner = [], det_night = [],
      det_salad = []\<rparr>"
    by simp
  then have "det_breakfast det = [] \<and> det_lunch det = [2] \<and> det_dinner det = []"
    by simp
  with d have B: "\<exists>det. detectHeaderColumns ?rows = Inr det \<and>
      det_breakfast det = [] \<and> det_lunch det = [2] \<and> det_dinner det = []"
    by blast
  from c D B F show ?thesis by (intro conjI)
qed

section \<open>Blank cells (C10)\<close>

lemma trim_blank: "\<forall>x\<in>set s. isSpace x \<Longrightarrow> trim s = []"
proof -
  assume "\<forall>x\<in>set s. isSpace x"
  then have d: "dropWhile isSpace s = []" by simp
  show ?thesis by (simp add: trim_def d)
qed

lemma splitMenuItems_blank:
  assumes "safeText v = Inr s" and "\<forall>x\<in>set s. isSpace x"
  shows "splitMenuItems v = Inr []"
proof -
  have "\<forall>x\<in>set (map (\<lambda>c. if c = 160 then 32 else c) (filter (\<lambda>c. c \<noteq> 13) s)). isSpace x"
    using assms(2) by (auto simp: isSpace_def)
  then have "trim (map (\<lambda>c. if c = 160 then 32 else c) (filter (\<lambda>c. c \<noteq> 13) s)) = []"
    by (rule trim_blank)
  with assms(1) show ?thesis
    by (simp add: splitMenuItems_def)
qed

text \<open>
  C10.  A configured column index at or past the end of the row, or a cell that is null,
  undefined or a string of white space only, yields no menu item and no error, and leaves
  every bucket of the day as it was.
\<close>

theorem C10_blank_cell:
  assumes "length row \<le> c \<or> row ! c = CNull \<or> row ! c = CUndefined \<or>
           (\<exists>s. row ! c = CString s \<and> (\<forall>x\<in>set s. isSpace x))"
  shows "splitMenuItems (cellAt row c) = Inr [] \<and>
         pushCells row (c # cols) bucket = pushCells row cols bucket \<and>
         pushExtra row ek (c # cols) day = pushExtra row ek cols day \<and>
         addTo KBreakfast [c] row day = Inr day \<and> addTo KLunch [c] row day = Inr day \<and>
         addTo KDinner [c] row day = Inr day \<and> addExtras row [(ek, [c])] day = Inr day"
proof -
  from assms have "\<exists>s. safeText (cellAt row c) = Inr s \<and> (\<forall>x\<in>set s. isSpace x)"
    by (auto simp: cellAt_def)
  then have s: "splitMenuItems (cellAt row c) = Inr []"
    using splitMenuItems_blank by blast
  then show ?thesis
    by (simp add: addTo_def)
qed

theorem C10_blank_cell_witness:
  "splitMenuItems (cellAt [CNull, CString [32, 160, 10, 13]] 1) = Inr [] \<and>
   pushCells [CNull, CString [32, 160, 10, 13]] [1, 0, 7] [js ''rice''] = Inr [js ''rice''] \<and>
   addTo KLunch [7] [CNull, CString [32, 160, 10, 13]] emptyDay = Inr emptyDay"
proof -
  let ?row = "[CNull, CString [32, 160, 10, 13]]"
  have 1: "length ?row \<le> 1 \<or> ?row ! 1 = CNull \<or> ?row ! 1 = CUndefined \<or>
           (\<exists>s. ?row ! 1 = CString s \<and> (\<forall>x\<in>set s. isSpace x))"
    by (simp add: isSpace_def)
  have 0: "length ?row \<le> 0 \<or> ?row ! 0 = CNull \<or> ?row ! 0 = CUndefined \<or>
           (\<exists>s. ?row ! 0 = CString s \<and> (\<forall>x\<in>set s. isSpace x))"
    by simp
  have 7: "length ?row \<le> 7 \<or> ?row ! 7 = CNull \<or> ?row ! 7 = CUndefined \<or>
           (\<exists>s. ?row ! 7 = CString s \<and> (\<forall>x\<in>set s. isSpace x))"
    by simp
  have "pushCells ?row [1, 0, 7] [js ''rice''] = pushCells ?row [] [js ''rice'']"
    using C10_blank_cell [OF 1, of "[0, 7]" "[js ''rice'']"]
      C10_blank_cell [OF 0, of "[7]" "[js ''rice'']"] C10_blank_cell [OF 7, of "[]" "[js ''rice'']"]
    by simp
  moreover have "splitMenuItems (cellAt ?row 1) = Inr []"
    using C10_blank_cell [OF 1] by simp
  moreover have "addTo KLunch [7] ?row emptyDay = Inr emptyDay"
    using C10_blank_cell [OF 7] by simp
  ultimately show ?thesis by simp
qed

section \<open>Row classification (C8)\<close>

lemma splitMenuItems_readable:
  "v \<noteq> CDate InvalidDate \<Longrightarrow> \<exists>items. splitMenuItems v = Inr items"
  by (cases v rule: safeText.cases) (simp_all add: splitMenuItems_def Let_def)

lemma splitMenuItems_cellItems:
  "cellAt row c \<noteq> CDate InvalidDate \<Longrightarrow> splitMenuItems (cellAt row c) = Inr (cellItems row c)"
  using splitMenuItems_readable [of "cellAt row c"] by (auto simp: cellItems_def)

lemma readable_simps [simp]:
  "readable row []"
  "readable row (c # cs) \<longleftrightarrow> cellAt row c \<noteq> CDate InvalidDate \<and> readable row cs"
  "readable row (cs @ ds) \<longleftrightarrow> readable row cs \<and> readable row ds"
  by (auto simp: readable_def)

lemma rowItems_simps [simp]:
  "rowItems row [] = []"
  "rowItems row (c # cs) = cellItems row c @ rowItems row cs"
  by (simp_all add: rowItems_def)

lemma pushCells_readable:
  "readable row cs \<Longrightarrow> pushCells row cs bucket = Inr (bucket @ rowItems row cs)"
  by (induction cs arbitrary: bucket) (simp_all add: splitMenuItems_cellItems)

lemma pushExtra_readable:
  "readable row cs \<Longrightarrow> extras day = Some ex \<Longrightarrow>
     pushExtra row ek cs day =
       Inr (if rowItems row cs = [] then day
            else day\<lparr>extras := Some (AList.update ek
                   ((case map_of ex ek of None \<Rightarrow> [] | Some v \<Rightarrow> v) @ rowItems row cs) ex)\<rparr>)"
proof (induction cs arbitrary: day ex)
  case Nil
  then show ?case by simp
next
  case (Cons c cs)
  then have r: "readable row cs" and s: "splitMenuItems (cellAt row c) = Inr (cellItems row c)"
    by (simp_all add: splitMenuItems_cellItems)
  show ?case
  proof (cases "cellItems row c = []")
    case True
    with Cons.IH [OF r Cons.prems(2)] s show ?thesis by simp
  next
    case False
    let ?old = "case map_of ex ek of None \<Rightarrow> [] | Some v \<Rightarrow> v"
    let ?day = "day\<lparr>extras := Some (AList.update ek (?old @ cellItems row c) ex)\<rparr>"
    have e: "extras ?day = Some (AList.update ek (?old @ cellItems row c) ex)" by simp
    from Cons.IH [OF r e] s False Cons.prems(2) show ?thesis
      by (simp add: update_conv')
  qed
qed

lemma addExtras_readable:
  "readable row (concat (map snd es)) \<Longrightarrow> extras day = Some ex \<Longrightarrow>
     addExtras row es day = Inr (day\<lparr>extras := Some (extrasAfter row es ex)\<rparr>)"
proof (induction es arbitrary: day ex)
  case Nil
  then show ?case by (simp add: extrasAfter_def)
next
  case (Cons e es)
  obtain ek cs where e: "e = (ek, cs)" by (cases e)
  from Cons.prems e have r: "readable row cs" and r': "readable row (concat (map snd es))"
    by simp_all
  show ?case
  proof (cases "rowItems row cs = []")
    case True
    with pushExtra_readable [OF r Cons.prems(2), of ek] Cons.IH [OF r' Cons.prems(2)] e
    show ?thesis by (simp add: extrasAfter_def)
  next
    case False
    let ?ex = "AList.update ek ((case map_of ex ek of None \<Rightarrow> [] | Some v \<Rightarrow> v)
                  @ rowItems row cs) ex"
    have x: "extras (day\<lparr>extras := Some ?ex\<rparr>) = Some ?ex" by simp
    from pushExtra_readable [OF r Cons.prems(2), of ek] Cons.IH [OF r' x] e False
    show ?thesis by (simp add: extrasAfter_def)
  qed
qed

lemma rowsLoop_foldl:
  "foldl (\<lambda>r row. andThen r (\<lambda>s. rowStep n g cols s row)) r rows =
     andThen r (rowsLoop n g cols rows)"
proof (induction rows arbitrary: r)
  case Nil
  then show ?case by (cases r) simp_all
next
  case (Cons row rows)
  then show ?case by (cases r) simp_all
qed

lemma map_of_None_keys: "map_of al k = None \<longleftrightarrow> k \<notin> fst ` set al"
  by (simp add: map_of_eq_None_iff)

lemma rowStep_anchor:
  assumes "normalizeDateCell n (cellAt row 0) g = Inr (Some date)"
  shows "rowStep n g cols st row =
        Inr (st\<lparr>currentDate := Some date, allDates := allDates st @ [date],
                daysAcc := (if date \<in> fst ` set (daysAcc st) then daysAcc st
                            else daysAcc st @ [(date, emptyDay)])\<rparr>)"
  using assms by (simp add: rowStep_def map_of_None_keys)

lemma rowStep_before:
  assumes "normalizeDateCell n (cellAt row 0) g = Inr None" and "currentDate st = None"
  shows "rowStep n g cols st row = Inr st"
  using assms by (simp add: rowStep_def)

lemma rowStep_continuation:
  assumes "normalizeDateCell n (cellAt row 0) g = Inr None" and "currentDate st = Some cur"
    and "map_of (daysAcc st) cur = Some day" and "extras day = Some ex"
    and "readable row (configured cols)"
  shows "rowStep n g cols st row =
        Inr (st\<lparr>daysAcc := AList.update cur
               \<lparr>breakfast = breakfast day @ rowItems row (col_breakfast cols),
                lunch = lunch day @ rowItems row (col_lunch cols),
                dinner = dinner day @ rowItems row (col_dinner cols),
                extras = Some (extrasAfter row (col_extras cols) ex)\<rparr> (daysAcc st)\<rparr>)"
proof -
  from assms(5) have b: "readable row (col_breakfast cols)" and l: "readable row (col_lunch cols)"
    and d: "readable row (col_dinner cols)"
    and x: "readable row (concat (map snd (col_extras cols)))"
    by (simp_all add: configured_def)
  let ?d1 = "day\<lparr>breakfast := breakfast day @ rowItems row (col_breakfast cols)\<rparr>"
  let ?d2 = "?d1\<lparr>lunch := lunch day @ rowItems row (col_lunch cols)\<rparr>"
  let ?d3 = "?d2\<lparr>dinner := dinner day @ rowItems row (col_dinner cols)\<rparr>"
  have 1: "addTo KBreakfast (col_breakfast cols) row day = Inr ?d1"
    by (simp add: addTo_def pushCells_readable [OF b])
  have 2: "addTo KLunch (col_lunch cols) row ?d1 = Inr ?d2"
    by (simp add: addTo_def pushCells_readable [OF l])
  have 3: "addTo KDinner (col_dinner cols) row ?d2 = Inr ?d3"
    by (simp add: addTo_def pushCells_readable [OF d])
  have e: "extras ?d3 = Some ex" using assms(4) by simp
  note 4 = addExtras_readable [OF x e]
  have 5: "?d3\<lparr>extras := Some (extrasAfter row (col_extras cols) ex)\<rparr> =
      \<lparr>breakfast = breakfast day @ rowItems row (col_breakfast cols),
       lunch = lunch day @ rowItems row (col_lunch cols),
       dinner = dinner day @ rowItems row (col_dinner cols),
       extras = Some (extrasAfter row (col_extras cols) ex)\<rparr>"
    by (cases day) simp
  from assms(1-3) show ?thesis
    unfolding 5 [symmetric] by (simp add: rowStep_def 1 2 3 4)
qed

lemma pushExtra_extras:
  "pushExtra row ek cs day = Inr day' \<Longrightarrow> extras day \<noteq> None \<Longrightarrow> extras day' \<noteq> None"
proof (induction cs arbitrary: day)
  case Nil
  then show ?case by simp
next
  case (Cons c cs)
  from Cons.prems(1) obtain items where i: "splitMenuItems (cellAt row c) = Inr items"
    by (auto simp: andThen_Inr)
  show ?case
  proof (cases "items = []")
    case True
    with Cons i show ?thesis by simp
  next
    case False
    from Cons.prems(2) obtain ex where ex: "extras day = Some ex" by blast
    with Cons.prems(1) i False Cons.IH show ?thesis
      by (simp add: Let_def)
  qed
qed

lemma addExtras_extras:
  "addExtras row es day = Inr day' \<Longrightarrow> extras day \<noteq> None \<Longrightarrow> extras day' \<noteq> None"
proof (induction es arbitrary: day)
  case Nil
  then show ?case by simp
next
  case (Cons e es)
  obtain ek cs where e: "e = (ek, cs)" by (cases e)
  with Cons.prems(1) obtain d1 where 1: "pushExtra row ek cs day = Inr d1"
    and 2: "addExtras row es d1 = Inr day'"
    by (auto simp: andThen_Inr)
  from pushExtra_extras [OF 1 Cons.prems(2)] Cons.IH [OF 2] show ?case by simp
qed

lemma addTo_extras: "addTo key cs row day = Inr day' \<Longrightarrow> extras day' = extras day"
  by (cases key) (auto simp: addTo_def andThen_Inr)

lemma set_update_subset: "x \<in> set (AList.update k v al) \<Longrightarrow> x = (k, v) \<or> x \<in> set al"
  by (induction al) (auto split: if_splits)

lemma rowStep_stateOk:
  assumes "rowStep n g cols st row = Inr st'" and "stateOk st"
  shows "stateOk st'"
proof -
  from assms(1) obtain r where r: "normalizeDateCell n (cellAt row 0) g = Inr r"
    by (auto simp: rowStep_def andThen_Inr)
  show ?thesis
  proof (cases r)
    case (Some date)
    from assms(1) have "st' = st\<lparr>currentDate := Some date, allDates := allDates st @ [date],
                daysAcc := (if date \<in> fst ` set (daysAcc st) then daysAcc st
                            else daysAcc st @ [(date, emptyDay)])\<rparr>"
      unfolding rowStep_anchor [OF r [unfolded Some]] by simp
    with assms(2) show ?thesis
      by (auto simp: stateOk_def emptyDay_def)
  next
    case None
    show ?thesis
    proof (cases "currentDate st")
      case n: None
      with assms r None show ?thesis by (simp add: rowStep_def)
    next
      case (Some cur)
      with assms(1) r None obtain day0 day1 day2 day3 day4 where
        d: "map_of (daysAcc st) cur = Some day0"
        and 1: "addTo KBreakfast (col_breakfast cols) row day0 = Inr day1"
        and 2: "addTo KLunch (col_lunch cols) row day1 = Inr day2"
        and 3: "addTo KDinner (col_dinner cols) row day2 = Inr day3"
        and 4: "addExtras row (col_extras cols) day3 = Inr day4"
        and s: "st' = st\<lparr>daysAcc := AList.update cur day4 (daysAcc st)\<rparr>"
        by (auto simp: rowStep_def andThen_Inr split: option.splits)
      from d have "(cur, day0) \<in> set (daysAcc st)" by (rule map_of_SomeD)
      with assms(2) have "extras day0 \<noteq> None" by (auto simp: stateOk_def)
      with addTo_extras [OF 1] addTo_extras [OF 2] addTo_extras [OF 3]
      have "extras day3 \<noteq> None" by simp
      with addExtras_extras [OF 4] have x: "extras day4 \<noteq> None" by simp
      have "\<forall>p\<in>set (daysAcc st'). extras (snd p) \<noteq> None"
      proof
        fix p assume "p \<in> set (daysAcc st')"
        then have "p = (cur, day4) \<or> p \<in> set (daysAcc st)"
          unfolding s by (auto dest: set_update_subset)
        with x assms(2) show "extras (snd p) \<noteq> None" by (auto simp: stateOk_def)
      qed
      then have "\<forall>(k, d)\<in>set (daysAcc st'). extras d \<noteq> None" by auto
      moreover from assms(2) s have "\<forall>c. currentDate st' = Some c \<longrightarrow> c \<in> fst ` set (daysAcc st')"
        by (auto simp: stateOk_def dom_update)
      ultimately show ?thesis by (simp add: stateOk_def)
    qed
  qed
qed

lemma rowsLoop_stateOk:
  "rowsLoop n g cols rows st = Inr st' \<Longrightarrow> stateOk st \<Longrightarrow> stateOk st'"
proof (induction rows arbitrary: st)
  case Nil
  then show ?case by simp
next
  case (Cons row rows)
  from Cons.prems(1) obtain st1 where 1: "rowStep n g cols st row = Inr st1"
    and 2: "rowsLoop n g cols rows st1 = Inr st'"
    by (auto simp: andThen_Inr)
  from Cons.IH [OF 2 rowStep_stateOk [OF 1 Cons.prems(2)]] show ?case .
qed

lemma stateOk_day:
  assumes "stateOk st" and "currentDate st = Some cur"
  shows "\<exists>day ex. map_of (daysAcc st) cur = Some day \<and> extras day = Some ex"
proof -
  from assms have "cur \<in> fst ` set (daysAcc st)" by (simp add: stateOk_def)
  then have "map_of (daysAcc st) cur \<noteq> None" by (simp add: map_of_None_keys)
  then obtain day where d: "map_of (daysAcc st) cur = Some day" by blast
  then have "(cur, day) \<in> set (daysAcc st)" by (rule map_of_SomeD)
  with assms(1) have "extras day \<noteq> None" by (auto simp: stateOk_def)
  with d show ?thesis by blast
qed



section \<open>Header and column detector (C4)\<close>

lemma keywordTable_one:
  "keywordTable k = [hd (keywordTable k)]" "hd (keywordTable k) \<noteq> []"
  by (cases k; simp add: kw_breakfast_def kw_lunch_def kw_dinner_def kw_night_def kw_salad_def
      kw_corner_def)+

lemma hit_keyword:
  "list_ex (includesStr s) (keywordTable k) = includesStr s (hd (keywordTable k))"
  by (cases k) simp_all

lemma scanCell_at:
  "scanCell s c f k = (if includesStr s (hd (keywordTable k)) then addCol c (f k) else f k)"
  unfolding scanCell_def categories_def hit_keyword
  by (cases k) simp_all

lemma set_addCol [simp]: "set (addCol c cs) = insert c (set cs)"
  by (auto simp: addCol_def)

lemma distinct_addCol [simp]: "distinct (addCol c cs) = distinct cs"
  by (simp add: addCol_def)

lemma hits_Cons:
  "{c + i |i. i < length (v # row) \<and> P ((v # row) ! i)} =
     (if P v then {c} else {}) \<union> {Suc c + i |i. i < length row \<and> P (row ! i)}"
proof -
  have "(\<exists>i. x = c + i \<and> i < Suc (length row) \<and> P ((v # row) ! i)) \<longleftrightarrow>
      (x = c \<and> P v) \<or> (\<exists>i. x = Suc (c + i) \<and> i < length row \<and> P (row ! i))" for x
  proof
    assume "\<exists>i. x = c + i \<and> i < Suc (length row) \<and> P ((v # row) ! i)"
    then obtain i where i: "x = c + i" "i < Suc (length row)" "P ((v # row) ! i)" by blast
    show "(x = c \<and> P v) \<or> (\<exists>i. x = Suc (c + i) \<and> i < length row \<and> P (row ! i))"
    proof (cases i)
      case 0
      with i show ?thesis by simp
    next
      case (Suc j)
      with i have "x = Suc (c + j) \<and> j < length row \<and> P (row ! j)" by simp
      then show ?thesis by blast
    qed
  next
    assume "(x = c \<and> P v) \<or> (\<exists>i. x = Suc (c + i) \<and> i < length row \<and> P (row ! i))"
    then show "\<exists>i. x = c + i \<and> i < Suc (length row) \<and> P ((v # row) ! i)"
    proof
      assume "x = c \<and> P v"
      then have "x = c + 0 \<and> 0 < Suc (length row) \<and> P ((v # row) ! 0)" by simp
      then show ?thesis by blast
    next
      assume "\<exists>i. x = Suc (c + i) \<and> i < length row \<and> P (row ! i)"
      then obtain j where "x = Suc (c + j)" "j < length row" "P (row ! j)" by blast
      then have "x = c + Suc j \<and> Suc j < Suc (length row) \<and> P ((v # row) ! Suc j)" by simp
      then show ?thesis by blast
    qed
  qed
  then show ?thesis by auto
qed

lemma cellHas_blank:
  "safeText v = Inr t \<Longrightarrow> trim (collapseSpaces t) = [] \<Longrightarrow> \<not> cellHas (hd (keywordTable k)) v"
  using keywordTable_one(2) [of k] by (simp add: cellHas_def)

lemma scanRow_found:
  "scanRow row c f = Inr f' \<Longrightarrow>
     set (f' k) = set (f k) \<union> {c + i |i. i < length row \<and> cellHas (hd (keywordTable k)) (row ! i)} \<and>
     (distinct (f k) \<longrightarrow> distinct (f' k))"
proof (induction row arbitrary: c f)
  case Nil
  then show ?case by simp
next
  case (Cons v row)
  from Cons.prems obtain t where t: "safeText v = Inr t"
    by (auto simp: andThen_Inr)
  let ?s = "trim (collapseSpaces t)"
  show ?case
  proof (cases "?s = []")
    case True
    with Cons.prems t have "scanRow row (Suc c) f = Inr f'" by simp
    from Cons.IH [OF this] cellHas_blank [OF t True, of k] show ?thesis
      unfolding hits_Cons by simp
  next
    case False
    with Cons.prems t have "scanRow row (Suc c) (scanCell ?s c f) = Inr f'" by simp
    from Cons.IH [OF this] t show ?thesis
      unfolding hits_Cons by (simp add: scanCell_at cellHas_def)
  qed
qed

lemma scanRows_found:
  "scanRows rows f = Inr f' \<Longrightarrow>
     set (f' k) = set (f k) \<union>
       (\<Union>row\<in>set rows. {c. c < length row \<and> cellHas (hd (keywordTable k)) (row ! c)}) \<and>
     (distinct (f k) \<longrightarrow> distinct (f' k))"
proof (induction rows arbitrary: f)
  case Nil
  then show ?case by simp
next
  case (Cons row rows)
  from Cons.prems obtain f1 where 1: "scanRow row 0 f = Inr f1" and 2: "scanRows rows f1 = Inr f'"
    by (auto simp: andThen_Inr)
  from scanRow_found [OF 1, of k] Cons.IH [OF 2] show ?case
    by auto
qed

lemma pick_set: "distinct cs \<Longrightarrow> pick cs = sorted_list_of_set (set cs)"
  by (simp add: pick_def sorted_list_of_set_sort_remdups distinct_remdups_id)

lemma detect_found:
  assumes "detectHeaderColumns rows = Inr det"
  shows "\<exists>found. scanRows (take 35 rows) (\<lambda>k. []) = Inr found \<and>
     (\<forall>k. set (found k) = keywordColumns (hd (keywordTable k)) rows \<and> distinct (found k)) \<and>
     det = \<lparr>det_breakfast = pick (found Breakfast), det_lunch = pick (found Lunch),
             det_dinner = pick (found Dinner), det_night = pick (found Night),
             det_salad = pick (found Salad)\<rparr>"
proof -
  have m: "take (min (length rows) 35) rows = take 35 rows"
    by (simp add: min_def)
  from assms obtain found where f: "scanRows (take 35 rows) (\<lambda>k. []) = Inr found"
    and d: "det = \<lparr>det_breakfast = pick (found Breakfast), det_lunch = pick (found Lunch),
             det_dinner = pick (found Dinner), det_night = pick (found Night),
             det_salad = pick (found Salad)\<rparr>"
    by (auto simp: detectHeaderColumns_def Let_def andThen_Inr m)
  from scanRows_found [OF f] have
    "\<forall>k. set (found k) = keywordColumns (hd (keywordTable k)) rows \<and> distinct (found k)"
    by (simp add: keywordColumns_def)
  with f d show ?thesis by blast
qed

text \<open>
  C4 (as stated) fails: the corner family is written to \<open>found\<close> and never read again.  A
  corner label cell in column 1 that also contains the lunch keyword puts column 1 into
  the lunch columns.
\<close>

theorem C4_counterexample_corner_label:
  "detectHeaderColumns [[CNull, CString (js ''A'' @ kw_corner @ js '' '' @ kw_lunch)]] =
     Inr \<lparr>det_breakfast = [], det_lunch = [1], det_dinner = [], det_night = [],
          det_salad = []\<rparr> \<and>
   cellHas kw_corner (CString (js ''A'' @ kw_corner @ js '' '' @ kw_lunch)) \<and>
   cellHas kw_lunch (CString (js ''A'' @ kw_corner @ js '' '' @ kw_lunch))"
  by (simp add: eval_strings eval_menu cellHas_def)

text \<open>
  C4 (amended).  For every grid that the detector reads, the corner hits are recorded in
  \<open>found\<close> and are no part of the output, and each of the five output lists is the
  ascending list of the columns where a cell of the first 35 rows contains the keyword of
  the category, whether or not that cell contains the corner keyword too.
\<close>

theorem C4_detected_columns:
  assumes "detectHeaderColumns rows = Inr det"
  shows "(\<exists>found. scanRows (take 35 rows) (\<lambda>k. []) = Inr found \<and>
            set (found Corner) = keywordColumns kw_corner rows) \<and>
    det_breakfast det = sorted_list_of_set (keywordColumns kw_breakfast rows) \<and>
    det_lunch det = sorted_list_of_set (keywordColumns kw_lunch rows) \<and>
    det_dinner det = sorted_list_of_set (keywordColumns kw_dinner rows) \<and>
    det_night det = sorted_list_of_set (keywordColumns kw_night rows) \<and>
    det_salad det = sorted_list_of_set (keywordColumns kw_salad rows)"
proof -
  from detect_found [OF assms] obtain found where
    f: "scanRows (take 35 rows) (\<lambda>k. []) = Inr found"
    and s: "\<And>k. set (found k) = keywordColumns (hd (keywordTable k)) rows"
    and i: "\<And>k. distinct (found k)"
    and d: "det = \<lparr>det_breakfast = pick (found Breakfast), det_lunch = pick (found Lunch),
             det_dinner = pick (found Dinner), det_night = pick (found Night),
             det_salad = pick (found Salad)\<rparr>"
    by blast
  from s [of Corner] have "set (found Corner) = keywordColumns kw_corner rows" by simp
  with f have 1: "\<exists>found. scanRows (take 35 rows) (\<lambda>k. []) = Inr found \<and>
            set (found Corner) = keywordColumns kw_corner rows"
    by blast
  have 2: "det_breakfast det = sorted_list_of_set (keywordColumns kw_breakfast rows)"
    using s [of Breakfast] by (simp add: d pick_set [OF i])
  have 3: "det_lunch det = sorted_list_of_set (keywordColumns kw_lunch rows)"
    using s [of Lunch] by (simp add: d pick_set [OF i])
  have 4: "det_dinner det = sorted_list_of_set (keywordColumns kw_dinner rows)"
    using s [of Dinner] by (simp add: d pick_set [OF i])
  have 5: "det_night det = sorted_list_of_set (keywordColumns kw_night rows)"
    using s [of Night] by (simp add: d pick_set [OF i])
  have 6: "det_salad det = sorted_list_of_set (keywordColumns kw_salad rows)"
    using s [of Salad] by (simp add: d pick_set [OF i])
  from 1 2 3 4 5 6 show ?thesis by (intro conjI)
qed

theorem C4_detected_columns_witness:
  "detectHeaderColumns
     [[CNull, CString (js ''A'' @ kw_corner @ js '' '' @ kw_lunch), CString kw_dinner],
      [CNull, CString kw_lunch]] =
     Inr \<lparr>det_breakfast = [], det_lunch = [1], det_dinner = [2], det_night = [],
          det_salad = []\<rparr> \<and>
   sorted_list_of_set (keywordColumns kw_lunch
     [[CNull, CString (js ''A'' @ kw_corner @ js '' '' @ kw_lunch), CString kw_dinner],
      [CNull, CString kw_lunch]]) = [1] \<and>
   sorted_list_of_set (keywordColumns kw_dinner
     [[CNull, CString (js ''A'' @ kw_corner @ js '' '' @ kw_lunch), CString kw_dinner],
      [CNull, CString kw_lunch]]) = [2]"
proof -
  let ?rows = "[[CNull, CString (js ''A'' @ kw_corner @ js '' '' @ kw_lunch), CString kw_dinner],
      [CNull, CString kw_lunch]]"
  let ?det = "\<lparr>det_breakfast = [], det_lunch = [1], det_dinner = [2], det_night = [],
          det_salad = []\<rparr>"
  have d: "detectHeaderColumns ?rows = Inr ?det"
    by (simp add: eval_strings eval_menu)
  from C4_detected_columns [OF d] have
    "sorted_list_of_set (keywordColumns kw_lunch ?rows) = [1] \<and>
     sorted_list_of_set (keywordColumns kw_dinner ?rows) = [2]"
    by simp
  with d show ?thesis by simp
qed

section \<open>Cell date normalizer (C3)\<close>

lemma digit_not_space: "isDigit c \<Longrightarrow> \<not> isSpace c"
  by (auto simp: isDigit_def isSpace_def)

lemma slash_plain [simp]: "\<not> isSpace 47" "\<not> isDigit 47"
  by (simp_all add: isSpace_def isDigit_def)

lemma dropWhile_spaces:
  "list_all isSpace ws \<Longrightarrow> dropWhile isSpace (ws @ ys) = dropWhile isSpace ys"
  by (simp add: list_all_iff)

lemma takeDigits_exact:
  assumes "list_all isDigit b" and "case rest of [] \<Rightarrow> True | c # r \<Rightarrow> \<not> isDigit c"
    and "length b = 1 \<or> length b = 2"
  shows "orElse (takeDigits 2 (b @ rest)) (takeDigits (Suc 0) (b @ rest)) = Some (b, rest)"
proof -
  from assms(3) show ?thesis
  proof
    assume "length b = 1"
    then obtain x where b: "b = [x]" by (cases b) auto
    with assms(1,2) show ?thesis
      by (cases rest) (simp_all add: takeDigits_def)
  next
    assume "length b = 2"
    then obtain x y where b: "b = [x, y]" using length_2E by blast
    with assms(1) show ?thesis
      by (simp add: takeDigits_def)
  qed
qed

lemma md_tail_exact:
  assumes "list_all isSpace wa" "list_all isSpace wb" "list_all isDigit b"
    "length b = 1 \<or> length b = 2" "case rest of [] \<Rightarrow> True | c # r \<Rightarrow> \<not> isDigit c"
  shows "md_tail (wa @ 47 # wb @ b @ rest) = Some b"
proof -
  from assms(4) obtain x b' where b: "b = x # b'" by (cases b) auto
  with assms(3) have "\<not> isSpace x" by (simp add: digit_not_space)
  with b have d: "dropWhile isSpace (b @ rest) = b @ rest" by simp
  have 1: "dropWhile isSpace (wa @ 47 # wb @ b @ rest) = 47 # wb @ b @ rest"
    by (simp add: dropWhile_spaces [OF assms(1)])
  have 2: "dropWhile isSpace (wb @ b @ rest) = b @ rest"
    by (simp add: dropWhile_spaces [OF assms(2)] d)
  show ?thesis
    unfolding md_tail_def 1 by (simp add: 2 takeDigits_exact [OF assms(3,5,4)])
qed

lemma md_at_exact:
  assumes "list_all isDigit a" "length a = 1 \<or> length a = 2"
    "list_all isSpace wa" "list_all isSpace wb" "list_all isDigit b"
    "length b = 1 \<or> length b = 2" "case rest of [] \<Rightarrow> True | c # r \<Rightarrow> \<not> isDigit c"
  shows "md_at (a @ wa @ 47 # wb @ b @ rest) = Some (a, b)"
proof -
  note t = md_tail_exact [OF assms(3-7)]
  from assms(2) show ?thesis
  proof
    assume "length a = 1"
    then obtain x where a: "a = [x]" by (cases a) auto
    have "\<not> isDigit (hd (wa @ 47 # wb @ b @ rest))"
      using assms(3) by (cases wa) (auto dest: digit_not_space)
    then have "takeDigits 2 (a @ wa @ 47 # wb @ b @ rest) = None"
      unfolding a by (cases "wa @ 47 # wb @ b @ rest") (simp_all add: takeDigits_def)
    moreover from assms(1) a have
      "takeDigits (Suc 0) (a @ wa @ 47 # wb @ b @ rest) = Some (a, wa @ 47 # wb @ b @ rest)"
      by (simp add: takeDigits_def)
    ultimately show ?thesis
      by (simp add: md_at_def md_with_def t)
  next
    assume "length a = 2"
    then obtain x y where a: "a = [x, y]" using length_2E by blast
    with assms(1) have
      "takeDigits 2 (a @ wa @ 47 # wb @ b @ rest) = Some (a, wa @ 47 # wb @ b @ rest)"
      by (simp add: takeDigits_def)
    then show ?thesis
      by (simp add: md_at_def md_with_def t)
  qed
qed

lemma md_at_nondigit: "\<not> isDigit c \<Longrightarrow> md_at (c # s) = None"
  by (simp add: md_at_def md_with_def takeDigits_def)

lemma match_md_skip:
  "list_all (\<lambda>c. \<not> isDigit c) pre \<Longrightarrow> s \<noteq> [] \<Longrightarrow> md_at s = Some r \<Longrightarrow>
     match_md (pre @ s) = Some r"
proof (induction pre)
  case Nil
  then show ?case by (cases s) simp_all
next
  case (Cons c pre)
  then show ?case by (simp add: md_at_nondigit)
qed

lemma normalize_mdText:
  assumes "mdText pre a wa wb b rest (trim t)"
  shows "normalizeDateCell thisYear (CString t) g =
        Inr (Some (toISODate (case g of Some y \<Rightarrow> y | None \<Rightarrow> thisYear) (Number a) (Number b)))"
proof -
  from assms have s: "trim t = pre @ a @ wa @ 47 # wb @ b @ rest"
    and p: "list_all (\<lambda>c. \<not> isDigit c) pre"
    and a: "list_all isDigit a" "length a = 1 \<or> length a = 2"
    and w: "list_all isSpace wa" "list_all isSpace wb"
    and b: "list_all isDigit b" "length b = 1 \<or> length b = 2"
    and r: "case rest of [] \<Rightarrow> True | c # r \<Rightarrow> \<not> isDigit c"
    by (simp_all add: mdText_def)
  have "match_md (pre @ a @ wa @ 47 # wb @ b @ rest) = Some (a, b)"
    using p md_at_exact [OF a w b r] by (intro match_md_skip) simp_all
  then have m: "match_md (trim t) = Some (a, b)" by (simp add: s)
  have ne: "trim t \<noteq> []" by (simp add: s)
  show ?thesis
    by (simp add: normalizeDateCell_def dateBranch_def numberBranch_def textBranch_def m ne Let_def)
qed

lemma normalize_result:
  assumes "cell \<noteq> CDate InvalidDate"
  shows "\<exists>r. normalizeDateCell thisYear cell g = Inr r \<and>
           (r = None \<or> (\<exists>y m d. r = Some (toISODate y m d)))"
proof -
  have t: "textBranch thisYear t g = None \<or> (\<exists>y m d. textBranch thisYear t g = Some (toISODate y m d))"
    for t
    by (auto simp: textBranch_def Let_def split: option.splits)
  have d: "dateBranch cell = None \<or> (\<exists>y m d. dateBranch cell = Some (toISODate y m d))"
    by (auto simp: dateBranch_def split: cell.splits jsdate.splits)
  have n: "numberBranch cell = None \<or> (\<exists>y m d. numberBranch cell = Some (toISODate y m d))"
    by (auto simp: numberBranch_def split: cell.splits jsnumber.splits option.splits)
  from assms obtain s where s: "safeText cell = Inr s"
    by (cases cell rule: safeText.cases) simp_all
  show ?thesis
  proof (cases "dateBranch cell")
    case (Some r)
    with d show ?thesis by (auto simp: normalizeDateCell_def)
  next
    case None
    show ?thesis
    proof (cases "numberBranch cell")
      case (Some r)
      with n None show ?thesis by (auto simp: normalizeDateCell_def)
    next
      case n2: None
      with None s t [of s] show ?thesis by (auto simp: normalizeDateCell_def)
    qed
  qed
qed





end
